theory Spec2Isabelle
  imports Main "HOL-Library.Word"
begin

unbundle bit_operations_syntax

section \<open>Go values shared by all components\<close>

text \<open>
  The program is one Go file, \<^verbatim>\<open>main.go\<close>. Its functions are embedded one by one, under
  their own names. What Go leaves implicit is written out:
  \<^item> a Go \<^verbatim>\<open>error\<close> is a value of \<open>error\<close>, and the \<^verbatim>\<open>nil\<close> error is \<open>None\<close>;
    a Go result pair \<^verbatim>\<open>(v, err)\<close> stays a pair;
  \<^item> \<^verbatim>\<open>int64\<close>, \<^verbatim>\<open>uint32\<close> and \<^verbatim>\<open>byte\<close> are machine words, so that the arithmetic
    wraps as Go's does; \<^verbatim>\<open>int\<close> values that only count bytes of a slice are \<open>int\<close>;
  \<^item> a run-time panic and the process exit of \<^verbatim>\<open>exit(err)\<close> are outcomes of their own.
\<close>

type_synonym byte = "8 word"
type_synonym uint32 = "32 word"
type_synonym int64 = "64 word"

datatype error = EOF | ErrNoInput | New string

datatype 'a outcome = Return 'a | Panic | Exit error

text \<open>
  The builtin \<^verbatim>\<open>copy(dst, src)\<close>: it overwrites the first \<open>min (len dst) (len src)\<close> bytes
  of \<open>dst\<close> and returns their number.
\<close>

definition copy :: "byte list \<Rightarrow> byte list \<Rightarrow> byte list \<times> int" where
  "copy dst src =
     (let m = min (length dst) (length src)
      in (take m src @ drop m dst, int m))"

section \<open>TrailerSizer: sizeWithoutTrailer\<close>

text \<open>
  \<^verbatim>\<open>binary.LittleEndian.Uint32(b)\<close> of the standard library:
  \<^verbatim>\<open>uint32(b[0]) | uint32(b[1])<<8 | uint32(b[2])<<16 | uint32(b[3])<<24\<close>, after the
  bounds check \<^verbatim>\<open>_ = b[3]\<close>, which panics on a slice shorter than 4 (\<open>None\<close> here).
\<close>

definition LittleEndian_Uint32 :: "byte list \<Rightarrow> uint32 option" where
  "LittleEndian_Uint32 b =
     (case b of
        b0 # b1 # b2 # b3 # _ \<Rightarrow>
          Some (ucast b0 OR push_bit 8 (ucast b1) OR push_bit 16 (ucast b2)
                OR push_bit 24 (ucast b3))
      | _ \<Rightarrow> None)"

text \<open>
  The minio client is a collaborator outside the repository: it is a parameter of the
  model. Of \<^verbatim>\<open>minio.ObjectInfo\<close> only \<^verbatim>\<open>Size\<close> is read. \<open>ReadAt obj k off\<close> stands for
  \<^verbatim>\<open>obj.ReadAt(p, off)\<close> with \<open>len(p) = k\<close>: it answers the bytes it read and the error;
  the caller's buffer receives them through \<open>copy\<close>, so that a buffer never changes its
  length and the count \<^verbatim>\<open>n\<close> (discarded by the program) is the length of the answer.
\<close>

record objectInfo =
  Size :: int64

record object =
  Stat :: "objectInfo \<times> error option"
  ReadAt :: "nat \<Rightarrow> int64 \<Rightarrow> byte list \<times> error option"

record client =
  GetObject :: "string \<Rightarrow> string \<Rightarrow> object \<times> error option"

definition sizeWithoutTrailer ::
  "client \<Rightarrow> string \<Rightarrow> string \<Rightarrow> (int64 \<times> error option) outcome" where
  "sizeWithoutTrailer cl bucket obj_name =
     (case GetObject cl bucket obj_name of
        (obj, Some err) \<Rightarrow> Exit err
      | (obj, None) \<Rightarrow>
          (case Stat obj of
             (stat, Some err) \<Rightarrow> Return (- 1, Some err)
           | (stat, None) \<Rightarrow>
               (let data = replicate 4 (0 :: byte);
                    (bs, err) = ReadAt obj (length data) (Size stat - 4);
                    data = fst (copy data bs)
                in if err \<noteq> None \<and> err \<noteq> Some EOF then Return (- 1, err)
                   else (case LittleEndian_Uint32 data of
                           None \<Rightarrow> Panic
                         | Some offset \<Rightarrow>
                             Return (Size stat - ucast offset - 4, None)))))"

text \<open>
  Modelled from the spec: the remote source contract of section 6 (a metadata probe
  returning the total object size, and a byte-range read), which the repository takes
  from the minio library. \<open>memObject S\<close> is an object held in memory with content \<open>S\<close>; its
  \<open>ReadAt\<close> follows Go's \<^verbatim>\<open>io.ReaderAt\<close> contract, as \<^verbatim>\<open>bytes.Reader\<close> does: a negative
  offset is an error, and a read that ends at the end of the content answers \<open>EOF\<close> when
  it is short. It instantiates the theorems at concrete objects.
\<close>

definition memObject :: "byte list \<Rightarrow> object" where
  "memObject S =
     \<lparr> Stat = (\<lparr> Size = of_nat (length S) \<rparr>, None),
       ReadAt = (\<lambda>k off.
         if sint off < 0 then ([], Some (New ''negative offset''))
         else (let bs = take k (drop (nat (sint off)) S)
               in (bs, if length bs < k then Some EOF else None))) \<rparr>"

definition memClient :: "byte list \<Rightarrow> client" where
  "memClient S = \<lparr> GetObject = (\<lambda>bucket obj_name. (memObject S, None)) \<rparr>"

section \<open>HeaderSynthesizer: bvmReader\<close>

text \<open>
  \<^verbatim>\<open>io.Reader\<close> is an interface: the wrapped source is a parameter of the model. A source
  with states \<open>'s\<close> is a function \<open>rd\<close>: \<open>rd s k\<close> is the call \<^verbatim>\<open>Read(p)\<close> with \<open>len(p) = k\<close>
  in state \<open>s\<close>, and answers the bytes read, the error and the next state. \<open>Reader_Read\<close>
  is that call on a buffer \<open>p\<close>: the bytes go into \<open>p\<close> through \<open>copy\<close>, whose count is the \<^verbatim>\<open>n\<close>
  the call returns (so \<open>0 \<le> n \<le> len(p)\<close>, as the interface demands). The result of a
  \<^verbatim>\<open>Read\<close> is the triple of \<^verbatim>\<open>n\<close>, \<^verbatim>\<open>err\<close> and the buffer after the call.
\<close>

type_synonym 's Reader = "'s \<Rightarrow> nat \<Rightarrow> (byte list \<times> error option) \<times> 's"

type_synonym read_result = "int \<times> error option \<times> byte list"

definition Reader_Read :: "'s Reader \<Rightarrow> 's \<Rightarrow> byte list \<Rightarrow> read_result \<times> 's" where
  "Reader_Read rd s p =
     (let ((bs, err), s') = rd s (length p);
          (p', nr) = copy p bs
      in ((nr, err, p'), s'))"

definition bvm :: "byte list" where
  "bvm = [0xE0, 0x01, 0x00, 0xEA]"

text \<open>
  The slice expression \<^verbatim>\<open>a[lo:hi]\<close>, which panics (\<open>None\<close>) unless
  \<open>0 \<le> lo \<le> hi \<le> len(a)\<close>.
\<close>

definition slice_bytes :: "byte list \<Rightarrow> int \<Rightarrow> int \<Rightarrow> byte list option" where
  "slice_bytes a lo hi =
     (if 0 \<le> lo \<and> lo \<le> hi \<and> hi \<le> int (length a)
      then Some (take (nat (hi - lo)) (drop (nat lo) a)) else None)"

text \<open>The struct \<^verbatim>\<open>bvmReader\<close>, with its fields \<^verbatim>\<open>r\<close> (here the state of the source) and \<^verbatim>\<open>n\<close>.\<close>

record 's bvmReader =
  bvmReader_r :: 's
  bvmReader_n :: int

definition newBVMReader :: "'s \<Rightarrow> 's bvmReader" where
  "newBVMReader input = \<lparr> bvmReader_r = input, bvmReader_n = 0 \<rparr>"

definition Read ::
  "'s Reader \<Rightarrow> 's bvmReader \<Rightarrow> byte list \<Rightarrow> (read_result \<times> 's bvmReader) outcome" where
  "Read rd b p =
     (if bvmReader_n b < 4 then
        (let n = int (length p);
             n = (if n > 4 - bvmReader_n b then 4 - bvmReader_n b else n)
         in case slice_bytes bvm (bvmReader_n b) (bvmReader_n b + n) of
              None \<Rightarrow> Panic
            | Some marker \<Rightarrow>
                (let (p1, c) = copy p marker;
                     b1 = b\<lparr>bvmReader_n := bvmReader_n b + c\<rparr>
                 in if n = int (length p) then Return ((n, None, p1), b1)
                    else
                      (let ((nr, err, q), s) = Reader_Read rd (bvmReader_r b1) (drop (nat n) p1);
                           p2 = take (nat n) p1 @ q;
                           b2 = b1\<lparr>bvmReader_r := s\<rparr>
                       in if err \<noteq> None then Return ((0, err, p2), b2)
                          else Return ((n + nr, None, p2), b2))))
      else
        (let ((nr, err, q), s) = Reader_Read rd (bvmReader_r b) p
         in Return ((nr, err, q), b\<lparr>bvmReader_r := s\<rparr>)))"

text \<open>
  A caller of the reader: \<open>reads rd b ps\<close> calls \<open>Read\<close> once with each buffer of \<open>ps\<close>, in
  order, and lists the result of each call with the state it leaves. \<open>returned\<close> is the
  byte slice \<^verbatim>\<open>p[:n]\<close> a call hands to its caller, and \<open>delivered\<close> the concatenation of these
  slices over a run.
\<close>

fun reads ::
  "'s Reader \<Rightarrow> 's bvmReader \<Rightarrow> byte list list \<Rightarrow> (read_result \<times> 's bvmReader) list outcome"
  where
  "reads rd b [] = Return []"
| "reads rd b (p # ps) =
     (case Read rd b p of
        Return (res, b') \<Rightarrow>
          (case reads rd b' ps of
             Return rs \<Rightarrow> Return ((res, b') # rs)
           | Panic \<Rightarrow> Panic
           | Exit e \<Rightarrow> Exit e)
      | Panic \<Rightarrow> Panic
      | Exit e \<Rightarrow> Exit e)"

definition returned :: "read_result \<Rightarrow> byte list" where
  "returned res = (case res of (k, err, q) \<Rightarrow> take (nat k) q)"

definition delivered :: "(read_result \<times> 's) list \<Rightarrow> byte list" where
  "delivered rs = concat (map (\<lambda>(res, b). returned res) rs)"

text \<open>
  Modelled from the spec: the wrapped source of section 4.2, a byte source with a content
  \<open>S\<close>, which the repository takes from the standard library (\<^verbatim>\<open>io.LimitedReader\<close> over
  the object). Its state is the content not yet read and a list of limits: each read
  delivers at most as many bytes as the buffer holds, as the next limit allows (short
  reads; no limit when the list is used up) and as are left. Once the content is used
  up, a read answers no bytes and \<open>EOF\<close>, as \<^verbatim>\<open>io.LimitedReader\<close> does.
\<close>

definition contentRead :: "(byte list \<times> nat list) Reader" where
  "contentRead s k =
     (case s of (S, limits) \<Rightarrow>
        if S = [] then (([], Some EOF), (S, limits))
        else (let m = (case limits of [] \<Rightarrow> k | l # _ \<Rightarrow> min l k)
              in ((take m S, None), (drop m S, tl limits))))"

text \<open>
  \<open>spans c ps\<close>: with \<open>c\<close> marker bytes emitted so far, some call of the run over the
  buffers \<open>ps\<close> spans the boundary between marker and source, that is, meets a buffer longer
  than the marker bytes still to emit.
\<close>

fun spans :: "int \<Rightarrow> byte list list \<Rightarrow> bool" where
  "spans c [] = False"
| "spans c (p # ps) =
     (if c < 4 then (if int (length p) > 4 - c then True else spans (c + int (length p)) ps)
      else False)"

text \<open>What a reader still owes its caller: the rest of the marker, then the rest of the content.\<close>

definition pending :: "(byte list \<times> nat list) bvmReader \<Rightarrow> byte list" where
  "pending b = drop (nat (bvmReader_n b)) bvm @ fst (bvmReader_r b)"

text \<open>A pass-through read: the call of the wrapped source on the same buffer, and nothing else.\<close>

definition passThrough ::
  "'s Reader \<Rightarrow> 's bvmReader \<Rightarrow> byte list \<Rightarrow> (read_result \<times> 's bvmReader) outcome" where
  "passThrough rd b p =
     (let (res, s) = Reader_Read rd (bvmReader_r b) p
      in Return (res, b\<lparr>bvmReader_r := s\<rparr>))"

text \<open>
  A source that keeps a log: \<open>logged rd\<close> answers as \<open>rd\<close> does, and appends to its state
  the bytes that each call hands out (those that reach the buffer). \<open>erase\<close> forgets the
  log again, in a reader and in the results of a run.
\<close>

definition logged :: "'s Reader \<Rightarrow> ('s \<times> byte list) Reader" where
  "logged rd sl k =
     (case sl of (s, log) \<Rightarrow>
        (let ((bs, err), s') = rd s k
         in ((bs, err), (s', log @ take k bs))))"

definition erase :: "('s \<times> byte list) bvmReader \<Rightarrow> 's bvmReader" where
  "erase b = \<lparr> bvmReader_r = fst (bvmReader_r b), bvmReader_n = bvmReader_n b \<rparr>"

definition erase_run ::
  "(read_result \<times> ('s \<times> byte list) bvmReader) list \<Rightarrow> (read_result \<times> 's bvmReader) list" where
  "erase_run rs = map (\<lambda>(res, b). (res, erase b)) rs"

text \<open>
  \<open>boundary_error c rs\<close>: in the run with the results \<open>rs\<close>, begun with \<open>c\<close> marker bytes
  emitted, some call that began with fewer than 4 marker bytes emitted returned an error.
  Such a call spans the boundary, and the error is the wrapped source's: a call that stays
  within the marker returns none. \<open>last_state b rs\<close> is the reader after the run.
\<close>

fun boundary_error :: "int \<Rightarrow> (read_result \<times> 's bvmReader) list \<Rightarrow> bool" where
  "boundary_error c [] = False"
| "boundary_error c ((res, b) # rs) =
     ((c < 4 \<and> fst (snd res) \<noteq> None) \<or> boundary_error (bvmReader_n b) rs)"

definition last_state :: "'s bvmReader \<Rightarrow> (read_result \<times> 's bvmReader) list \<Rightarrow> 's bvmReader" where
  "last_state b rs = (if rs = [] then b else snd (last rs))"

text \<open>A source that hands out one byte and fails from then on.\<close>

definition brokenRead :: "nat Reader" where
  "brokenRead c k =
     (if c = 0 then (([1], None), 1) else (([], Some (New ''connection reset'')), c))"

section \<open>EnvelopeExtractor: extract\<close>

text \<open>
  The ion library is a collaborator outside the repository. \<^verbatim>\<open>ion.NewReader(in)\<close> decodes the
  byte stream; the model starts from the reader it returns, which is a parameter: the
  top-level values that \<^verbatim>\<open>Next\<close> will deliver, in order, and the condition the iteration
  ends with (no error at a clean end of stream, an error when the stream cannot be read
  or decoded further). Of a value the program reads its type and its \<^verbatim>\<open>ByteValue\<close>. When
  \<^verbatim>\<open>Next\<close> has nothing more to deliver it answers \<^verbatim>\<open>false\<close> and records the end condition,
  which \<^verbatim>\<open>Err\<close> reports.
\<close>

datatype ion_Type = NoType | NullType | BoolType | IntType | FloatType | DecimalType
  | TimestampType | SymbolType | StringType | ClobType | BlobType | ListType | SexpType
  | StructType

record ion_value =
  value_Type :: ion_Type
  value_ByteValue :: "byte list \<times> error option"

record ion_Reader =
  reader_values :: "ion_value list"
  reader_end :: "error option"
  reader_current :: "ion_value option"
  reader_err :: "error option"

definition NewReader :: "ion_value list \<Rightarrow> error option \<Rightarrow> ion_Reader" where
  "NewReader vs e =
     \<lparr> reader_values = vs, reader_end = e, reader_current = None, reader_err = None \<rparr>"

definition Next :: "ion_Reader \<Rightarrow> bool \<times> ion_Reader" where
  "Next r =
     (case reader_values r of
        [] \<Rightarrow> (False, r\<lparr>reader_current := None, reader_err := reader_end r\<rparr>)
      | v # vs \<Rightarrow> (True, r\<lparr>reader_values := vs, reader_current := Some v\<rparr>))"

definition Err :: "ion_Reader \<Rightarrow> error option" where
  "Err r = reader_err r"

definition Type :: "ion_Reader \<Rightarrow> ion_Type" where
  "Type r = (case reader_current r of None \<Rightarrow> NoType | Some v \<Rightarrow> value_Type v)"

definition ByteValue :: "ion_Reader \<Rightarrow> byte list \<times> error option" where
  "ByteValue r =
     (case reader_current r of
        None \<Rightarrow> ([], Some (New ''no current value''))
      | Some v \<Rightarrow> value_ByteValue v)"

text \<open>A top-level blob record with the content \<open>b\<close>.\<close>

definition blob :: "byte list \<Rightarrow> ion_value" where
  "blob b = \<lparr> value_Type = BlobType, value_ByteValue = (b, None) \<rparr>"

text \<open>
  \<^verbatim>\<open>io.Writer\<close> is an interface: the output is a parameter, a function \<open>wr\<close> on states \<open>'w\<close>
  with \<open>wr out p\<close> the call \<^verbatim>\<open>out.Write(p)\<close>. \<open>bufferWrite\<close> is the writer of a
  \<^verbatim>\<open>bytes.Buffer\<close>, which appends and never fails. \<open>write_all wr out vals\<close> is the state of
  the output after it has accepted the writes \<open>vals\<close> one after the other, and \<open>None\<close> when
  it rejects one of them.
\<close>

type_synonym 'w Writer = "'w \<Rightarrow> byte list \<Rightarrow> (int \<times> error option) \<times> 'w"

definition bufferWrite :: "(byte list) Writer" where
  "bufferWrite buf p = ((int (length p), None), buf @ p)"

fun write_all :: "'w Writer \<Rightarrow> 'w \<Rightarrow> byte list list \<Rightarrow> 'w option" where
  "write_all wr out [] = Some out"
| "write_all wr out (val # vals) =
     (case wr out val of
        ((n, None), out') \<Rightarrow> write_all wr out' vals
      | ((n, Some err), out') \<Rightarrow> None)"

text \<open>
  The loop \<^verbatim>\<open>for r.Next() { ... }\<close> of \<open>extract\<close>. Besides the error it returns the reader
  and the output as the loop leaves them, and \<open>written\<close>, the arguments of the calls of
  \<^verbatim>\<open>out.Write\<close> it made, in order. The function is named \<open>extract'\<close>, since \<open>extract\<close> is a
  command of Isabelle.
\<close>

function extract_loop ::
  "'w Writer \<Rightarrow> ion_Reader \<Rightarrow> 'w \<Rightarrow> byte list list
     \<Rightarrow> error option \<times> ion_Reader \<times> 'w \<times> byte list list" where
  "extract_loop wr r out written =
     (case Next r of
        (False, r') \<Rightarrow> (None, r', out, written)
      | (True, r') \<Rightarrow>
          (let t = Type r'
           in if t \<noteq> BlobType
              then (Some (New ''unexpected token type''), r', out, written)
              else (case ByteValue r' of
                      (val, Some err) \<Rightarrow> (Some err, r', out, written)
                    | (val, None) \<Rightarrow>
                        (case wr out val of
                           ((n, Some err), out') \<Rightarrow> (Some err, r', out', written @ [val])
                         | ((n, None), out') \<Rightarrow>
                             extract_loop wr r' out' (written @ [val])))))"
  by pat_completeness auto
termination
  by (relation "measure (\<lambda>(wr, r, out, written). length (reader_values r))")
     (auto simp: Next_def split: list.splits)

definition extract' ::
  "'w Writer \<Rightarrow> ion_Reader \<Rightarrow> 'w \<Rightarrow> error option \<times> ion_Reader \<times> 'w \<times> byte list list" where
  "extract' wr r out = extract_loop wr r out []"

section \<open>TextRenderer: dump\<close>

text \<open>
  Decoder and encoder are the ion library's. The decoder is a parameter: the values it
  decodes, in order, and the error it reports once they are used up (\<open>ErrNoInput\<close> at the
  end of a well-formed input, another error otherwise). The encoder is a parameter too:
  its methods \<^verbatim>\<open>Encode\<close> and \<^verbatim>\<open>Finish\<close> on states \<open>'e\<close>. A value of Go's \<^verbatim>\<open>interface{}\<close>
  is an \<open>option\<close>, \<^verbatim>\<open>nil\<close> being \<open>None\<close>. Besides the error, \<open>dump\<close> returns decoder and
  encoder as it leaves them and the calls it made to the encoder, in order.
\<close>

datatype 'v call = Encode_call "'v option" | Finish_call

record 'v Decoder =
  decoder_values :: "'v list"
  decoder_end :: error

definition Decode :: "'v Decoder \<Rightarrow> ('v option \<times> error option) \<times> 'v Decoder" where
  "Decode d =
     (case decoder_values d of
        [] \<Rightarrow> ((None, Some (decoder_end d)), d)
      | v # vs \<Rightarrow> ((Some v, None), d\<lparr>decoder_values := vs\<rparr>))"

record ('e, 'v) Encoder =
  Encode :: "'e \<Rightarrow> 'v option \<Rightarrow> error option \<times> 'e"
  Finish :: "'e \<Rightarrow> error option \<times> 'e"

function dump_loop ::
  "('e, 'v) Encoder \<Rightarrow> 'v Decoder \<Rightarrow> 'e \<Rightarrow> 'v call list
     \<Rightarrow> error option \<times> 'v Decoder \<times> 'e \<times> 'v call list" where
  "dump_loop enc dec e calls =
     (case Decode dec of
        ((val, err), dec') \<Rightarrow>
          if err = Some ErrNoInput then
            (case Finish enc e of
               (Some err, e') \<Rightarrow> (Some err, dec', e', calls @ [Finish_call])
             | (None, e') \<Rightarrow> (None, dec', e', calls @ [Finish_call]))
          else if err \<noteq> None then (err, dec', e, calls)
          else (case Encode enc e val of
                  (Some err, e') \<Rightarrow> (Some err, dec', e', calls @ [Encode_call val])
                | (None, e') \<Rightarrow> dump_loop enc dec' e' (calls @ [Encode_call val])))"
  by pat_completeness auto
termination
  by (relation "measure (\<lambda>(enc, dec, e, calls). length (decoder_values dec))")
     (auto simp: Decode_def split: list.splits)

definition dump ::
  "('e, 'v) Encoder \<Rightarrow> 'v Decoder \<Rightarrow> 'e \<Rightarrow> error option \<times> 'v Decoder \<times> 'e \<times> 'v call list"
  where
  "dump enc dec e = dump_loop enc dec e []"

text \<open>
  \<open>encode_all enc e vs\<close> is the state of the encoder after it has encoded the values \<open>vs\<close>
  one after the other, and \<open>None\<close> when \<^verbatim>\<open>Encode\<close> fails on one of them.
\<close>

fun encode_all :: "('e, 'v) Encoder \<Rightarrow> 'e \<Rightarrow> 'v list \<Rightarrow> 'e option" where
  "encode_all enc e [] = Some e"
| "encode_all enc e (v # vs) =
     (case Encode enc e (Some v) of
        (None, e') \<Rightarrow> encode_all enc e' vs
      | (Some err, e') \<Rightarrow> None)"

section \<open>Properties of sizeWithoutTrailer\<close>

lemma copy_length: "length (fst (copy dst src)) = length dst"
  by (simp add: copy_def Let_def)

lemma or_push_bit_byte: "uint (b :: byte) OR push_bit 8 k = uint b + 256 * k"
proof -
  have "take_bit 8 (uint b) = uint b"
    by (rule take_bit_int_eq_self) (use uint_lt2p [of b] in simp_all)
  then have "uint b OR push_bit 8 k = concat_bit 8 (uint b) k"
    by (simp add: concat_bit_def)
  also have "\<dots> = take_bit 8 (uint b) + push_bit 8 k"
    by (simp add: concat_bit_eq)
  finally show ?thesis
    using \<open>take_bit 8 (uint b) = uint b\<close> by (simp add: push_bit_eq_mult)
qed

lemma uint_ucast_byte: "uint (ucast (b :: byte) :: uint32) = uint b"
proof -
  have "uint b < 2 ^ 8" using uint_lt2p [of b] by simp
  then have "uint b < 2 ^ 32" by simp
  then have "take_bit 32 (uint b) = uint b"
    by (intro take_bit_int_eq_self) simp_all
  then show ?thesis by (simp add: unsigned_ucast_eq)
qed

lemma uint_push_ucast_byte:
  "n \<le> 24 \<Longrightarrow> uint (push_bit n (ucast (b :: byte) :: uint32)) = push_bit n (uint b)"
proof -
  assume n: "n \<le> 24"
  have "uint b < 2 ^ 8" using uint_lt2p [of b] by simp
  then have "uint b * 2 ^ n < 2 ^ 8 * 2 ^ n" by simp
  also have "\<dots> = (2::int) ^ (8 + n)" by (simp add: power_add)
  also have "\<dots> \<le> 2 ^ 32" using n by (intro power_increasing) simp_all
  finally have "push_bit n (uint b) < 2 ^ 32" by (simp add: push_bit_eq_mult)
  moreover have "0 \<le> push_bit n (uint b)" by simp
  ultimately have "take_bit 32 (push_bit n (uint b)) = push_bit n (uint b)"
    by (simp add: take_bit_int_eq_self)
  then show ?thesis
    by (simp add: unsigned_push_bit_eq uint_ucast_byte)
qed

lemma LittleEndian_Uint32_value:
  "uint (ucast b0 OR push_bit 8 (ucast b1) OR push_bit 16 (ucast b2) OR push_bit 24 (ucast b3) :: uint32)
     = uint (b0::byte) + 256 * uint (b1::byte) + 65536 * uint (b2::byte) + 16777216 * uint (b3::byte)"
proof -
  have "uint (ucast b0 OR push_bit 8 (ucast b1) OR push_bit 16 (ucast b2) OR push_bit 24 (ucast b3) :: uint32)
      = uint b0 OR push_bit 8 (uint b1) OR push_bit 16 (uint b2) OR push_bit 24 (uint b3)"
    by (simp add: uint_or uint_ucast_byte uint_push_ucast_byte)
  also have "\<dots> = uint b0 OR push_bit 8 (uint b1 OR push_bit 8 (uint b2 OR push_bit 8 (uint b3)))"
    by (simp add: push_bit_or push_bit_push_bit)
  also have "\<dots> = uint b0 + 256 * (uint b1 + 256 * (uint b2 + 256 * uint b3))"
    by (simp only: or_push_bit_byte)
  finally show ?thesis by simp
qed

lemma int64_sub_no_wrap:
  assumes "0 \<le> sint (s :: int64)"
  shows "sint (s - ucast (off :: uint32) - 4) = sint s - uint off - 4"
proof -
  have "s - ucast off - 4 = word_of_int (sint s - uint off - 4)"
    by simp
  then have st: "sint (s - ucast off - 4) = signed_take_bit 63 (sint s - uint off - 4)"
    by (simp only: sint_sbintrunc') simp
  have hi: "sint s < 2 ^ 63" using sint_lt [of s] by simp
  have lo: "uint off < 2 ^ 32" using uint_lt2p [of off] by simp
  have nn: "0 \<le> uint off" by simp
  have "- (2 ^ 63) \<le> sint s - uint off - 4"
    using assms lo by simp
  moreover have "sint s - uint off - 4 < 2 ^ 63"
  proof -
    have "sint s - uint off - 4 \<le> sint s" using nn by linarith
    with hi show ?thesis by linarith
  qed
  ultimately
  have "signed_take_bit 63 (sint s - uint off - 4) = sint s - uint off - 4"
    by (intro signed_take_bit_int_eq_self) simp_all
  with st show ?thesis by simp
qed


lemma LittleEndian_Uint32_uint:
  "LittleEndian_Uint32 [b0, b1, b2, b3] = Some offset \<Longrightarrow>
     uint offset = uint b0 + 256 * uint b1 + 65536 * uint b2 + 16777216 * uint b3"
  using LittleEndian_Uint32_value [of b0 b1 b2 b3] by (auto simp: LittleEndian_Uint32_def)

lemma LittleEndian_Uint32_four:
  "length b = 4 \<Longrightarrow> \<exists>offset. LittleEndian_Uint32 b = Some offset"
  by (auto simp: LittleEndian_Uint32_def length_Suc_conv numeral_eq_Suc split: list.splits)

lemma padded_length: "length (take 4 bs @ replicate (4 - length bs) x) = 4"
  by (cases "length bs \<le> 4") (simp_all add: min_def)

lemma copy_zeros:
  "fst (copy (replicate 4 0) bs) = take 4 bs @ replicate (4 - length bs) 0"
  by (simp add: copy_def Let_def min_def)

lemma sizeWithoutTrailer_read:
  assumes "GetObject cl bucket name = (obj, None)" and "Stat obj = (stat, None)"
    and "ReadAt obj 4 (Size stat - 4) = (bs, err)" and "err = None \<or> err = Some EOF"
    and "LittleEndian_Uint32 (take 4 bs @ replicate (4 - length bs) 0) = Some offset"
  shows "sizeWithoutTrailer cl bucket name = Return (Size stat - ucast offset - 4, None)"
  using assms by (auto simp: sizeWithoutTrailer_def copy_zeros)

text \<open>
  C4. Let the object have total size \<open>totalSize \<ge> 4\<close>, let the read of its final 4 bytes
  succeed (a nil error, or \<open>EOF\<close> with all 4 bytes) and deliver \<open>b0 b1 b2 b3\<close>, and let
  \<open>offset\<close> be their value as a little-endian unsigned 32-bit integer. If
  \<open>totalSize - offset - 4 \<ge> 0\<close>, then \<open>sizeWithoutTrailer\<close> returns exactly that value, with
  a nil error (the \<^verbatim>\<open>int64\<close> subtraction does not wrap).
\<close>

theorem sizeWithoutTrailer_exact:
  assumes "GetObject cl bucket name = (obj, None)" and "Stat obj = (stat, None)"
    and "ReadAt obj 4 (Size stat - 4) = ([b0, b1, b2, b3], err)"
    and "err = None \<or> err = Some EOF"
    and "offset = uint b0 + 256 * uint b1 + 65536 * uint b2 + 16777216 * uint b3"
    and "4 \<le> sint (Size stat)"
    and "0 \<le> sint (Size stat) - offset - 4"
  shows "\<exists>v. sizeWithoutTrailer cl bucket name = Return (v, None)
           \<and> sint v = sint (Size stat) - offset - 4"
proof -
  obtain off where off: "LittleEndian_Uint32 [b0, b1, b2, b3] = Some off"
    using LittleEndian_Uint32_four [of "[b0, b1, b2, b3]"] by auto
  then have "sizeWithoutTrailer cl bucket name = Return (Size stat - ucast off - 4, None)"
    using assms(1-4) by (intro sizeWithoutTrailer_read [where bs = "[b0, b1, b2, b3]"]) simp_all
  moreover have "sint (Size stat - ucast off - 4) = sint (Size stat) - uint off - 4"
    using assms(6) by (intro int64_sub_no_wrap) simp
  moreover have "uint off = offset"
    using LittleEndian_Uint32_uint [OF off] assms(5) by simp
  ultimately show ?thesis by simp
qed

theorem sizeWithoutTrailer_exact_witness:
  "\<exists>v. sizeWithoutTrailer (memClient [9, 9, 9, 2, 0, 0, 0]) ''bucket'' ''object''
          = Return (v, None) \<and> sint v = 7 - 2 - 4"
proof -
  let ?S = "[9, 9, 9, 2, 0, 0, 0] :: byte list"
  have 1: "GetObject (memClient ?S) ''bucket'' ''object'' = (memObject ?S, None)"
    by (simp add: memClient_def)
  have 2: "Stat (memObject ?S) = (\<lparr> Size = 7 \<rparr>, None)"
    by (simp add: memObject_def)
  have 3: "ReadAt (memObject ?S) 4 (Size \<lparr> Size = 7 \<rparr> - 4) = ([2, 0, 0, 0], None)"
    by (simp add: memObject_def)
  have 4: "(None :: error option) = None \<or> None = Some EOF"
    by simp
  have 5: "(2 :: int) = uint (2 :: byte) + 256 * uint (0 :: byte) + 65536 * uint (0 :: byte)
             + 16777216 * uint (0 :: byte)"
    by simp
  have 6: "4 \<le> sint (Size \<lparr> Size = 7 \<rparr>)"
    by simp
  have 7: "0 \<le> sint (Size \<lparr> Size = 7 \<rparr>) - 2 - 4"
    by simp
  show ?thesis
    using sizeWithoutTrailer_exact [OF 1 2 3 4 5 6 7] by simp
qed

text \<open>
  C1 (as the code has it). \<open>sizeWithoutTrailer\<close> has no check of the sign of its result.
  When \<open>GetObject\<close>, \<open>Stat\<close> and the read of the final 4 bytes succeed on an object of
  size \<open>totalSize \<ge> 0\<close> whose final bytes decode to \<open>offset\<close> with
  \<open>totalSize - offset - 4 < 0\<close>, it returns that negative value together with a nil error.
\<close>

theorem sizeWithoutTrailer_unchecked:
  assumes "GetObject cl bucket name = (obj, None)" and "Stat obj = (stat, None)"
    and "ReadAt obj 4 (Size stat - 4) = ([b0, b1, b2, b3], err)"
    and "err = None \<or> err = Some EOF"
    and "offset = uint b0 + 256 * uint b1 + 65536 * uint b2 + 16777216 * uint b3"
    and "0 \<le> sint (Size stat)"
    and "sint (Size stat) - offset - 4 < 0"
  shows "\<exists>v. sizeWithoutTrailer cl bucket name = Return (v, None)
           \<and> sint v = sint (Size stat) - offset - 4 \<and> sint v < 0"
proof -
  obtain off where off: "LittleEndian_Uint32 [b0, b1, b2, b3] = Some off"
    using LittleEndian_Uint32_four [of "[b0, b1, b2, b3]"] by auto
  have "uint off = offset"
    using LittleEndian_Uint32_uint [OF off] assms(5) by simp
  moreover have "sint (Size stat - ucast off - 4) = sint (Size stat) - uint off - 4"
    using assms(6) by (rule int64_sub_no_wrap)
  moreover have "sizeWithoutTrailer cl bucket name = Return (Size stat - ucast off - 4, None)"
    using assms(1-4) off
    by (intro sizeWithoutTrailer_read [where bs = "[b0, b1, b2, b3]"]) simp_all
  ultimately show ?thesis
    using assms(7) by simp
qed

theorem sizeWithoutTrailer_unchecked_witness:
  "\<exists>v. sizeWithoutTrailer (memClient [1, 2, 7, 0, 0, 0]) ''bucket'' ''object''
          = Return (v, None) \<and> sint v = 6 - 7 - 4 \<and> sint v < 0"
proof -
  let ?S = "[1, 2, 7, 0, 0, 0] :: byte list"
  have 1: "GetObject (memClient ?S) ''bucket'' ''object'' = (memObject ?S, None)"
    by (simp add: memClient_def)
  have 2: "Stat (memObject ?S) = (\<lparr> Size = 6 \<rparr>, None)"
    by (simp add: memObject_def)
  have 3: "ReadAt (memObject ?S) 4 (Size \<lparr> Size = 6 \<rparr> - 4) = ([7, 0, 0, 0], None)"
    by (simp add: memObject_def)
  have 4: "(None :: error option) = None \<or> None = Some EOF"
    by simp
  have 5: "(7 :: int) = uint (7 :: byte) + 256 * uint (0 :: byte) + 65536 * uint (0 :: byte)
             + 16777216 * uint (0 :: byte)"
    by simp
  have 6: "0 \<le> sint (Size \<lparr> Size = 6 \<rparr>)"
    by simp
  have 7: "sint (Size \<lparr> Size = 6 \<rparr>) - 7 - 4 < 0"
    by simp
  show ?thesis
    using sizeWithoutTrailer_unchecked [OF 1 2 3 4 5 6 7] by simp
qed

text \<open>
  C1 (as stated) fails: an object of 6 bytes whose final 4 bytes hold the offset 7 has
  \<open>totalSize - offset - 4 = - 5\<close>, and \<open>sizeWithoutTrailer\<close> returns \<open>- 5\<close> with a nil error.
\<close>

theorem sizeWithoutTrailer_negative_counterexample:
  "sizeWithoutTrailer (memClient [1, 2, 7, 0, 0, 0]) ''bucket'' ''object'' = Return (- 5, None)
     \<and> sint (- 5 :: int64) = 6 - 7 - 4"
  by (simp add: sizeWithoutTrailer_def memClient_def memObject_def copy_def
      LittleEndian_Uint32_def)

text \<open>
  C10. If the read of the final 4 bytes answers \<open>EOF\<close>, however many bytes \<open>bs\<close> it read,
  \<open>sizeWithoutTrailer\<close> does not fail: the offset is decoded from the 4-byte buffer, which
  holds the bytes read followed by the zeros it was created with.
\<close>

theorem sizeWithoutTrailer_EOF:
  assumes "GetObject cl bucket name = (obj, None)" and "Stat obj = (stat, None)"
    and "ReadAt obj 4 (Size stat - 4) = (bs, Some EOF)"
  shows "\<exists>offset. LittleEndian_Uint32 (take 4 bs @ replicate (4 - length bs) 0) = Some offset
           \<and> sizeWithoutTrailer cl bucket name = Return (Size stat - ucast offset - 4, None)"
proof -
  obtain offset
    where off: "LittleEndian_Uint32 (take 4 bs @ replicate (4 - length bs) 0) = Some offset"
    using LittleEndian_Uint32_four [OF padded_length] by blast
  then have "sizeWithoutTrailer cl bucket name = Return (Size stat - ucast offset - 4, None)"
    using sizeWithoutTrailer_read [OF assms(1) assms(2) assms(3) _ off] by simp
  with off show ?thesis by blast
qed

theorem sizeWithoutTrailer_EOF_witness:
  "\<exists>offset. LittleEndian_Uint32 (take 4 [7] @ replicate (4 - length [7 :: byte]) 0) = Some offset
     \<and> sizeWithoutTrailer
          \<lparr> GetObject = (\<lambda>bucket name.
               (\<lparr> Stat = (\<lparr> Size = 20 \<rparr>, None), ReadAt = (\<lambda>k off. ([7], Some EOF)) \<rparr>, None)) \<rparr>
          ''bucket'' ''object''
        = Return (Size \<lparr> Size = 20 \<rparr> - ucast offset - 4, None)"
proof -
  let ?obj = "\<lparr> Stat = (\<lparr> Size = 20 \<rparr>, None), ReadAt = (\<lambda>k off. ([7 :: byte], Some EOF)) \<rparr>"
  let ?cl = "\<lparr> GetObject = (\<lambda>bucket name. (?obj, None :: error option)) \<rparr>"
  have 1: "GetObject ?cl ''bucket'' ''object'' = (?obj, None)"
    by simp
  have 2: "Stat ?obj = (\<lparr> Size = 20 \<rparr>, None)"
    by simp
  have 3: "ReadAt ?obj 4 (Size \<lparr> Size = 20 \<rparr> - 4) = ([7], Some EOF)"
    by simp
  show ?thesis
    by (rule sizeWithoutTrailer_EOF [OF 1 2 3])
qed

section \<open>Properties of bvmReader\<close>

lemma length_bvm: "length bvm = 4"
  by (simp add: bvm_def)

lemma slice_bvm:
  assumes "0 \<le> c" and "c < 4" and "0 \<le> k" and "k \<le> 4 - c"
  shows "slice_bytes bvm c (c + k) = Some (take (nat k) (drop (nat c) bvm))"
  using assms by (simp add: slice_bytes_def length_bvm)

lemma slice_bvm_negative: "c < 0 \<Longrightarrow> slice_bytes bvm c hi = None"
  by (simp add: slice_bytes_def)

lemma Read_marker_only:
  assumes "0 \<le> bvmReader_n b" and "bvmReader_n b < 4"
    and "int (length p) \<le> 4 - bvmReader_n b"
  shows "Read rd b p =
           Return ((int (length p), None, take (length p) (drop (nat (bvmReader_n b)) bvm)),
                   b\<lparr>bvmReader_n := bvmReader_n b + int (length p)\<rparr>)"
proof -
  have "slice_bytes bvm (bvmReader_n b) (bvmReader_n b + int (length p))
          = Some (take (length p) (drop (nat (bvmReader_n b)) bvm))"
    using assms slice_bvm [of "bvmReader_n b" "int (length p)"] by simp
  moreover have "length (take (length p) (drop (nat (bvmReader_n b)) bvm)) = length p"
    using assms by (simp add: length_bvm)
  ultimately show ?thesis
    using assms by (simp add: Read_def copy_def Let_def)
qed

lemma Read_spanning:
  assumes "0 \<le> bvmReader_n b" and "bvmReader_n b < 4"
    and "4 - bvmReader_n b < int (length p)"
    and "Reader_Read rd (bvmReader_r b) (drop (nat (4 - bvmReader_n b)) p) = ((nr, err, q), s)"
  shows "Read rd b p =
           Return ((if err \<noteq> None then 0 else 4 - bvmReader_n b + nr, err,
                    drop (nat (bvmReader_n b)) bvm @ q),
                   \<lparr> bvmReader_r = s, bvmReader_n = 4 \<rparr>)"
proof -
  let ?m = "nat (4 - bvmReader_n b)"
  have sl: "slice_bytes bvm (bvmReader_n b) (bvmReader_n b + (4 - bvmReader_n b))
          = Some (drop (nat (bvmReader_n b)) bvm)"
    using assms(1,2) slice_bvm [of "bvmReader_n b" "4 - bvmReader_n b"]
    by (simp add: length_bvm)
  have len: "length (drop (nat (bvmReader_n b)) bvm) = ?m"
    using assms(1,2) by (simp add: length_bvm)
  have m: "?m < length p" "int ?m = 4 - bvmReader_n b"
    using assms(2,3) by simp_all
  have cp: "copy p (drop (nat (bvmReader_n b)) bvm)
          = (drop (nat (bvmReader_n b)) bvm @ drop ?m p, 4 - bvmReader_n b)"
    using len m by (simp add: copy_def min_def)
  show ?thesis
    using assms sl cp len
    by (cases b) (simp add: Read_def)
qed

lemma Read_pass: "4 \<le> bvmReader_n b \<Longrightarrow> Read rd b p = passThrough rd b p"
  by (simp add: Read_def passThrough_def split: prod.splits)

lemma Read_panic: "bvmReader_n b < 0 \<Longrightarrow> Read rd b p = Panic"
  by (simp add: Read_def slice_bvm_negative Let_def)


lemma passThrough_state:
  "\<exists>res s. passThrough rd b p = Return (res, b\<lparr>bvmReader_r := s\<rparr>)"
  by (auto simp: passThrough_def split: prod.splits)

lemma Read_count:
  assumes "0 \<le> bvmReader_n b" and "bvmReader_n b \<le> 4"
  shows "\<exists>res b'. Read rd b p = Return (res, b')
           \<and> bvmReader_n b \<le> bvmReader_n b' \<and> bvmReader_n b' \<le> 4"
proof -
  consider (pass) "bvmReader_n b = 4"
    | (marker) "bvmReader_n b < 4" "int (length p) \<le> 4 - bvmReader_n b"
    | (span) "bvmReader_n b < 4" "4 - bvmReader_n b < int (length p)"
    using assms by linarith
  then show ?thesis
  proof cases
    case pass
    then show ?thesis
      using passThrough_state [of rd b p] by (auto simp: Read_pass)
  next
    case marker
    then show ?thesis
      using assms by (simp add: Read_marker_only)
  next
    case span
    obtain nr err q s
      where "Reader_Read rd (bvmReader_r b) (drop (nat (4 - bvmReader_n b)) p) = ((nr, err, q), s)"
      by (metis prod.exhaust)
    then show ?thesis
      using assms span by (simp add: Read_spanning)
  qed
qed

lemma reads_counts:
  assumes "0 \<le> bvmReader_n b" and "bvmReader_n b \<le> 4"
  shows "\<exists>rs. reads rd b ps = Return rs
           \<and> (\<forall>(res, b') \<in> set rs. 0 \<le> bvmReader_n b' \<and> bvmReader_n b' \<le> 4)
           \<and> sorted (bvmReader_n b # map (\<lambda>(res, b'). bvmReader_n b') rs)"
  using assms
proof (induction ps arbitrary: b)
  case Nil
  then show ?case by simp
next
  case (Cons p ps)
  obtain res b' where step: "Read rd b p = Return (res, b')"
    and mono: "bvmReader_n b \<le> bvmReader_n b'" and le: "bvmReader_n b' \<le> 4"
    using Read_count [OF Cons.prems] by blast
  have ge: "0 \<le> bvmReader_n b'"
    using Cons.prems(1) mono by linarith
  obtain rs where run: "reads rd b' ps = Return rs"
    and bounds: "\<forall>(res, b'') \<in> set rs. 0 \<le> bvmReader_n b'' \<and> bvmReader_n b'' \<le> 4"
    and sorted: "sorted (bvmReader_n b' # map (\<lambda>(res, b''). bvmReader_n b'') rs)"
    using Cons.IH [OF ge le] by blast
  have "reads rd b (p # ps) = Return ((res, b') # rs)"
    using step run by simp
  moreover have "\<forall>(res, b'') \<in> set ((res, b') # rs). 0 \<le> bvmReader_n b'' \<and> bvmReader_n b'' \<le> 4"
    using bounds ge le by simp
  moreover have "sorted (bvmReader_n b # map (\<lambda>(res, b''). bvmReader_n b'') ((res, b') # rs))"
    using sorted mono by auto
  ultimately show ?case by blast
qed

lemma reads_nth:
  assumes "reads rd b ps = Return rs"
  shows "length rs = length ps
         \<and> (\<forall>j < length ps. Read rd (if j = 0 then b else snd (rs ! (j - 1))) (ps ! j) = Return (rs ! j))"
  using assms
proof (induction ps arbitrary: b rs)
  case Nil
  then show ?case by simp
next
  case (Cons p ps)
  from Cons.prems obtain res b' rs' where step: "Read rd b p = Return (res, b')"
    and run: "reads rd b' ps = Return rs'" and rs: "rs = (res, b') # rs'"
    by (auto split: outcome.splits)
  note ih = Cons.IH [OF run]
  have "Read rd (if j = 0 then b else snd (rs ! (j - 1))) ((p # ps) ! j) = Return (rs ! j)"
    if "j < length (p # ps)" for j
  proof (cases j)
    case 0
    then show ?thesis using step rs by simp
  next
    case (Suc i)
    then have "i < length ps" using that by simp
    then have "Read rd (if i = 0 then b' else snd (rs' ! (i - 1))) (ps ! i) = Return (rs' ! i)"
      using ih by blast
    then show ?thesis
      using Suc rs by (cases i) simp_all
  qed
  then show ?case using ih rs by simp
qed


lemmas run_defs = Read_def Reader_Read_def contentRead_def copy_def slice_bytes_def bvm_def
  newBVMReader_def passThrough_def

text \<open>
  C9. Over any run of \<open>Read\<close> calls on a reader made by \<open>newBVMReader\<close>, whatever the
  wrapped source does and whatever buffers the caller passes: no call panics, the count \<^verbatim>\<open>n\<close>
  of marker bytes emitted is between 0 and 4 after every call, it never decreases from
  one call to the next, and once it is 4 after some call \<open>i\<close>, every later call \<open>j\<close> is
  exactly the pass-through call of the wrapped source on the caller's buffer.
\<close>

theorem bvmReader_count:
  "\<exists>rs. reads rd (newBVMReader input) ps = Return rs
     \<and> (\<forall>(res, b) \<in> set rs. 0 \<le> bvmReader_n b \<and> bvmReader_n b \<le> 4)
     \<and> sorted (0 # map (\<lambda>(res, b). bvmReader_n b) rs)
     \<and> (\<forall>i j. i < j \<and> j < length rs \<and> bvmReader_n (snd (rs ! i)) = 4 \<longrightarrow>
           Return (rs ! j) = passThrough rd (snd (rs ! (j - 1))) (ps ! j))"
proof -
  obtain rs where run: "reads rd (newBVMReader input) ps = Return rs"
    and bounds: "\<forall>(res, b) \<in> set rs. 0 \<le> bvmReader_n b \<and> bvmReader_n b \<le> 4"
    and sorted: "sorted (0 # map (\<lambda>(res, b). bvmReader_n b) rs)"
    using reads_counts [of "newBVMReader input" rd ps] by (auto simp: newBVMReader_def)
  have "Return (rs ! j) = passThrough rd (snd (rs ! (j - 1))) (ps ! j)"
    if ij: "i < j" "j < length rs" and four: "bvmReader_n (snd (rs ! i)) = 4" for i j
  proof -
    have len: "length rs = length ps"
      using reads_nth [OF run] by simp
    have "Read rd (snd (rs ! (j - 1))) (ps ! j) = Return (rs ! j)"
      using reads_nth [OF run] ij len by auto
    moreover have "4 \<le> bvmReader_n (snd (rs ! (j - 1)))"
    proof -
      have "sorted (map (\<lambda>(res, b). bvmReader_n b) rs)"
        using sorted by simp
      moreover have "i \<le> j - 1" "j - 1 < length (map (\<lambda>(res, b). bvmReader_n b) rs)"
        using ij by simp_all
      ultimately have "map (\<lambda>(res, b). bvmReader_n b) rs ! i \<le> map (\<lambda>(res, b). bvmReader_n b) rs ! (j - 1)"
        by (rule sorted_nth_mono)
      then show ?thesis
        using ij four by (simp add: case_prod_unfold)
    qed
    ultimately show ?thesis
      by (simp add: Read_pass)
  qed
  with run bounds sorted show ?thesis by blast
qed

theorem bvmReader_count_witness:
  "\<exists>rs. reads contentRead (newBVMReader ([1, 2, 3], [])) [[0, 0], [0, 0, 0, 0, 0], [0, 0]] = Return rs
     \<and> map (\<lambda>(res, b). bvmReader_n b) rs = [2, 4, 4]
     \<and> Return (rs ! 2) = passThrough contentRead (snd (rs ! 1)) [0, 0]"
proof -
  let ?ps = "[[0, 0], [0, 0, 0, 0, 0], [0, 0]] :: byte list list"
  obtain rs where run: "reads contentRead (newBVMReader ([1, 2, 3], [])) ?ps = Return rs"
    and pass: "\<forall>i j. i < j \<and> j < length rs \<and> bvmReader_n (snd (rs ! i)) = 4 \<longrightarrow>
           Return (rs ! j) = passThrough contentRead (snd (rs ! (j - 1))) (?ps ! j)"
    using bvmReader_count [of contentRead "([1, 2, 3], [])" ?ps] by blast
  have "reads contentRead (newBVMReader ([1, 2, 3], [])) ?ps =
      Return [((2, None, [0xE0, 1]), \<lparr> bvmReader_r = ([1, 2, 3], []), bvmReader_n = 2 \<rparr>),
              ((5, None, [0, 0xEA, 1, 2, 3]), \<lparr> bvmReader_r = ([], []), bvmReader_n = 4 \<rparr>),
              ((0, Some EOF, [0, 0]), \<lparr> bvmReader_r = ([], []), bvmReader_n = 4 \<rparr>)]"
    by (simp add: run_defs)
  with run have rs: "rs =
      [((2, None, [0xE0, 1]), \<lparr> bvmReader_r = ([1, 2, 3], []), bvmReader_n = 2 \<rparr>),
       ((5, None, [0, 0xEA, 1, 2, 3]), \<lparr> bvmReader_r = ([], []), bvmReader_n = 4 \<rparr>),
       ((0, Some EOF, [0, 0]), \<lparr> bvmReader_r = ([], []), bvmReader_n = 4 \<rparr>)]"
    by simp
  then have "Return (rs ! 2) = passThrough contentRead (snd (rs ! 1)) [0, 0]"
    using pass [rule_format, of 1 2] by simp
  with run rs show ?thesis by simp
qed

text \<open>
  C7. Let a \<open>Read\<close> span the boundary: the count is below 4 and the buffer is longer than
  the marker bytes still to emit. If the one read of the wrapped source answers an error
  \<open>e\<close> (with whatever bytes \<open>bs\<close>), then \<open>Read\<close> returns \<open>(0, e)\<close>: no byte is handed to the
  caller, although the marker bytes were staged at the start of the buffer. The count is
  4 afterwards, and every later \<open>Read\<close> is a pass-through call: the staged marker bytes are
  never delivered again.
\<close>

theorem Read_boundary_error:
  assumes "0 \<le> bvmReader_n b" and "bvmReader_n b < 4"
    and "4 - bvmReader_n b < int (length p)"
    and "rd (bvmReader_r b) (length p - nat (4 - bvmReader_n b)) = ((bs, Some e), s)"
  shows "\<exists>q b'. Read rd b p = Return ((0, Some e, q), b')
           \<and> returned (0, Some e, q) = []
           \<and> take (nat (4 - bvmReader_n b)) q = drop (nat (bvmReader_n b)) bvm
           \<and> b' = \<lparr> bvmReader_r = s, bvmReader_n = 4 \<rparr>
           \<and> (\<forall>p'. Read rd b' p' = passThrough rd b' p')"
proof -
  let ?rest = "drop (nat (4 - bvmReader_n b)) p"
  have "Reader_Read rd (bvmReader_r b) ?rest = ((snd (copy ?rest bs), Some e, fst (copy ?rest bs)), s)"
    using assms(4) by (simp add: Reader_Read_def split: prod.splits)
  then have "Read rd b p =
      Return ((0, Some e, drop (nat (bvmReader_n b)) bvm @ fst (copy ?rest bs)),
              \<lparr> bvmReader_r = s, bvmReader_n = 4 \<rparr>)"
    using Read_spanning [OF assms(1-3)] by simp
  moreover have "length (drop (nat (bvmReader_n b)) bvm) = nat (4 - bvmReader_n b)"
    using assms(1,2) by (simp add: length_bvm)
  moreover have "Read rd \<lparr> bvmReader_r = s, bvmReader_n = 4 \<rparr> p'
      = passThrough rd \<lparr> bvmReader_r = s, bvmReader_n = 4 \<rparr> p'" for p'
    by (simp add: Read_pass)
  ultimately show ?thesis
    by (simp add: returned_def)
qed


theorem Read_boundary_error_witness:
  "Read (\<lambda>s k. (([7], Some (New ''connection reset'')), s))
        \<lparr> bvmReader_r = (), bvmReader_n = 2 \<rparr> [9, 9, 9, 9, 9]
     = Return ((0, Some (New ''connection reset''), [0, 0xEA, 7, 9, 9]),
               \<lparr> bvmReader_r = (), bvmReader_n = 4 \<rparr>)
   \<and> returned (0, Some (New ''connection reset''), [0, 0xEA, 7, 9, 9]) = []
   \<and> Read (\<lambda>s k. (([7], Some (New ''connection reset'')), s))
        \<lparr> bvmReader_r = (), bvmReader_n = 4 \<rparr> [9, 9]
     = passThrough (\<lambda>s k. (([7], Some (New ''connection reset'')), s))
        \<lparr> bvmReader_r = (), bvmReader_n = 4 \<rparr> [9, 9]"
proof -
  let ?rd = "\<lambda>(s :: unit) (k :: nat). (([7 :: byte], Some (New ''connection reset'')), s)"
  let ?b = "\<lparr> bvmReader_r = (), bvmReader_n = 2 \<rparr>"
  let ?p = "[9, 9, 9, 9, 9] :: byte list"
  have 1: "0 \<le> bvmReader_n ?b" by simp
  have 2: "bvmReader_n ?b < 4" by simp
  have 3: "4 - bvmReader_n ?b < int (length ?p)" by simp
  have 4: "?rd (bvmReader_r ?b) (length ?p - nat (4 - bvmReader_n ?b))
             = (([7], Some (New ''connection reset'')), ())" by simp
  obtain q b' where rd: "Read ?rd ?b ?p = Return ((0, Some (New ''connection reset''), q), b')"
    and ret: "returned (0, Some (New ''connection reset''), q) = []"
    and b': "b' = \<lparr> bvmReader_r = (), bvmReader_n = 4 \<rparr>"
    and pass: "\<forall>p'. Read ?rd b' p' = passThrough ?rd b' p'"
    using Read_boundary_error [where rd = ?rd and b = ?b and p = ?p, OF 1 2 3 4] by blast
  have "Read ?rd ?b ?p = Return ((0, Some (New ''connection reset''), [0, 0xEA, 7, 9, 9]),
               \<lparr> bvmReader_r = (), bvmReader_n = 4 \<rparr>)"
    by (simp add: run_defs)
  with rd have "q = [0, 0xEA, 7, 9, 9]" by simp
  with rd ret b' pass show ?thesis by simp
qed

lemma Reader_Read_content_empty:
  "Reader_Read contentRead ([], limits) p = ((0, Some EOF, p), ([], limits))"
  by (simp add: Reader_Read_def contentRead_def copy_def)

lemma Reader_Read_content:
  assumes "S \<noteq> []"
  shows "\<exists>m. m \<le> length p \<and> m \<le> length S
           \<and> (limits = [] \<longrightarrow> m = min (length p) (length S))
           \<and> Reader_Read contentRead (S, limits) p
               = ((int m, None, take m S @ drop m p), (drop m S, tl limits))"
proof -
  define k where "k = (case limits of [] \<Rightarrow> length p | l # _ \<Rightarrow> min l (length p))"
  define m where "m = min k (length S)"
  have k: "k \<le> length p"
    by (simp add: k_def split: list.splits)
  have "take m S = take k S" "drop m S = drop k S"
    by (simp_all add: m_def min_def)
  moreover have "min (length p) (length (take k S)) = m"
    using k by (simp add: m_def min_def)
  ultimately have "Reader_Read contentRead (S, limits) p
               = ((int m, None, take m S @ drop m p), (drop m S, tl limits))"
    using assms by (simp add: Reader_Read_def contentRead_def copy_def k_def Let_def)
  moreover have "m \<le> length p" "m \<le> length S"
    using k by (simp_all add: m_def)
  moreover have "limits = [] \<longrightarrow> m = min (length p) (length S)"
    by (simp add: m_def k_def)
  ultimately show ?thesis by blast
qed


lemma Read_content_step:
  assumes "0 \<le> bvmReader_n b" and "bvmReader_n b \<le> 4"
    and "fst (bvmReader_r b) \<noteq> [] \<or> \<not> (bvmReader_n b < 4 \<and> 4 - bvmReader_n b < int (length p))"
  shows "\<exists>res b'. Read contentRead b p = Return (res, b')
           \<and> returned res @ pending b' = pending b
           \<and> 0 \<le> bvmReader_n b' \<and> bvmReader_n b' \<le> 4
           \<and> (fst (snd res) \<noteq> None \<longrightarrow> pending b' = [])
           \<and> (bvmReader_n b' < 4 \<longrightarrow>
                 bvmReader_r b' = bvmReader_r b \<and> bvmReader_n b' = bvmReader_n b + int (length p)
                 \<and> int (length p) \<le> 4 - bvmReader_n b)
           \<and> (snd (bvmReader_r b) = [] \<longrightarrow>
                 snd (bvmReader_r b') = [] \<and> returned res = take (length p) (pending b))"
proof -
  obtain S limits where r: "bvmReader_r b = (S, limits)"
    by (cases "bvmReader_r b")
  consider (pass) "bvmReader_n b = 4"
    | (marker) "bvmReader_n b < 4" "int (length p) \<le> 4 - bvmReader_n b"
    | (span) "bvmReader_n b < 4" "4 - bvmReader_n b < int (length p)"
    using assms by linarith
  then show ?thesis
  proof cases
    case pass
    show ?thesis
    proof (cases "S = []")
      case True
      then show ?thesis
        using pass r
        by (simp add: Read_pass passThrough_def Reader_Read_content_empty returned_def
            pending_def length_bvm)
    next
      case False
      from Reader_Read_content [OF this, of p limits]
      obtain m where "m \<le> length p" "m \<le> length S"
        and "limits = [] \<longrightarrow> m = min (length p) (length S)"
        and "Reader_Read contentRead (S, limits) p
               = ((int m, None, take m S @ drop m p), (drop m S, tl limits))"
        by (elim exE conjE)
      then have "Read contentRead b p
          = Return ((int m, None, take m S @ drop m p), b\<lparr>bvmReader_r := (drop m S, tl limits)\<rparr>)"
        and "returned (int m, None, take m S @ drop m p) = take m S"
        and "limits = [] \<longrightarrow> take (length p) S = take m S"
        using pass r by (simp_all add: Read_pass passThrough_def returned_def min_def)
      then show ?thesis
        using pass r by (simp add: pending_def length_bvm)
    qed
  next
    case marker
    have "take (length p) (drop (nat (bvmReader_n b)) bvm)
            @ drop (nat (bvmReader_n b + int (length p))) bvm
          = drop (nat (bvmReader_n b)) bvm"
    proof -
      have "nat (bvmReader_n b + int (length p)) = length p + nat (bvmReader_n b)"
        using assms(1) by simp
      then have "drop (nat (bvmReader_n b + int (length p))) bvm
                   = drop (length p) (drop (nat (bvmReader_n b)) bvm)"
        by simp
      then show ?thesis by (simp only: append_take_drop_id)
    qed
    moreover have "length p \<le> length (drop (nat (bvmReader_n b)) bvm)"
      using marker assms(1) by (simp add: length_bvm)
    ultimately show ?thesis
      using marker assms(1) r
      by (simp add: Read_marker_only returned_def pending_def)
  next
    case span
    let ?k = "nat (4 - bvmReader_n b)"
    have "S \<noteq> []"
      using span assms(3) r by simp
    from Reader_Read_content [OF this, of "drop ?k p" limits]
    obtain m where m: "m \<le> length S"
      and full: "limits = [] \<longrightarrow> m = min (length (drop ?k p)) (length S)"
      and rd: "Reader_Read contentRead (S, limits) (drop ?k p)
               = ((int m, None, take m S @ drop m (drop ?k p)), (drop m S, tl limits))"
      by (elim exE conjE)
    have len: "length (drop (nat (bvmReader_n b)) bvm) = ?k"
      using assms(1) span(1) by (simp add: length_bvm)
    have "nat (4 - bvmReader_n b + int m) = ?k + m"
      using span(1) by simp
    then have ret: "take (nat (4 - bvmReader_n b + int m))
             (drop (nat (bvmReader_n b)) bvm @ take m S @ drop m (drop ?k p))
          = drop (nat (bvmReader_n b)) bvm @ take m S"
      using len m by simp
    have "take (length p) (drop (nat (bvmReader_n b)) bvm @ S)
            = drop (nat (bvmReader_n b)) bvm @ take m S" if "limits = []"
    proof -
      have "m = min (length p - ?k) (length S)"
        using full that by simp
      then have "take (length p - ?k) S = take m S"
        by (simp add: min_def)
      moreover have "?k \<le> length p"
        using span(2) by simp
      ultimately show ?thesis
        using len by simp
    qed
    then show ?thesis
      using Read_spanning [OF assms(1) span(1) span(2)] rd r ret
      by (simp add: returned_def pending_def length_bvm)
  qed
qed



lemma spans_done: "4 \<le> c \<Longrightarrow> spans c ps = False"
  by (cases ps) simp_all

lemma take_append_eq_drop: "take k xs @ ys = xs \<Longrightarrow> ys = drop k xs"
  by (metis append_take_drop_id same_append_eq)

lemma reads_content:
  assumes "0 \<le> bvmReader_n b" and "bvmReader_n b \<le> 4"
    and "fst (bvmReader_r b) \<noteq> [] \<or> \<not> spans (bvmReader_n b) ps"
  shows "\<exists>rs rest. reads contentRead b ps = Return rs
           \<and> delivered rs @ rest = pending b
           \<and> ((\<exists>(res, b') \<in> set rs. fst (snd res) \<noteq> None) \<longrightarrow> rest = [])
           \<and> (snd (bvmReader_r b) = [] \<longrightarrow>
                 delivered rs = take (sum_list (map length ps)) (pending b))"
  using assms
proof (induction ps arbitrary: b)
  case Nil
  then show ?case by (simp add: delivered_def)
next
  case (Cons p ps)
  have "fst (bvmReader_r b) \<noteq> [] \<or> \<not> (bvmReader_n b < 4 \<and> 4 - bvmReader_n b < int (length p))"
    using Cons.prems(3) by auto
  from Read_content_step [OF Cons.prems(1,2) this]
  obtain res b' where step: "Read contentRead b p = Return (res, b')"
    and cons: "returned res @ pending b' = pending b"
    and ge: "0 \<le> bvmReader_n b'" and le: "bvmReader_n b' \<le> 4"
    and err: "fst (snd res) \<noteq> None \<longrightarrow> pending b' = []"
    and low: "bvmReader_n b' < 4 \<longrightarrow>
                 bvmReader_r b' = bvmReader_r b \<and> bvmReader_n b' = bvmReader_n b + int (length p)
                 \<and> int (length p) \<le> 4 - bvmReader_n b"
    and full: "snd (bvmReader_r b) = [] \<longrightarrow>
                 snd (bvmReader_r b') = [] \<and> returned res = take (length p) (pending b)"
    by (elim exE conjE)
  have "fst (bvmReader_r b') \<noteq> [] \<or> \<not> spans (bvmReader_n b') ps"
  proof (cases "bvmReader_n b' < 4")
    case True
    with low Cons.prems(1,3) show ?thesis
      by (auto split: if_splits)
  next
    case False
    then show ?thesis by (simp add: spans_done)
  qed
  from Cons.IH [OF ge le this]
  obtain rs rest where run: "reads contentRead b' ps = Return rs"
    and rest: "delivered rs @ rest = pending b'"
    and fin: "(\<exists>(res, b') \<in> set rs. fst (snd res) \<noteq> None) \<longrightarrow> rest = []"
    and all: "snd (bvmReader_r b') = [] \<longrightarrow>
                 delivered rs = take (sum_list (map length ps)) (pending b')"
    by (elim exE conjE)
  have "reads contentRead b (p # ps) = Return ((res, b') # rs)"
    using step run by simp
  moreover have "delivered ((res, b') # rs) @ rest = pending b"
    using cons rest by (simp add: delivered_def)
  moreover have "(\<exists>(res, b') \<in> set ((res, b') # rs). fst (snd res) \<noteq> None) \<longrightarrow> rest = []"
    using err fin rest by auto
  moreover have "delivered ((res, b') # rs) = take (sum_list (map length (p # ps))) (pending b)"
    if "snd (bvmReader_r b) = []"
  proof -
    have ret: "returned res = take (length p) (pending b)"
      and rs: "delivered rs = take (sum_list (map length ps)) (pending b')"
      using full all that by simp_all
    have "pending b' = drop (length p) (pending b)"
      using cons ret by (intro take_append_eq_drop) simp
    then have "delivered ((res, b') # rs)
        = take (length p) (pending b) @ take (sum_list (map length ps)) (drop (length p) (pending b))"
      using ret rs by (simp add: delivered_def)
    then show ?thesis
      by (simp add: take_add)
  qed
  ultimately show ?case by blast
qed


lemma Reader_Read_shape:
  "\<exists>m bs err s'. rd s (length p) = ((bs, err), s') \<and> m = min (length p) (length bs)
     \<and> Reader_Read rd s p = ((int m, err, take m bs @ drop m p), s')"
  by (cases "rd s (length p)") (auto simp: Reader_Read_def copy_def Let_def)

lemma Reader_Read_logged:
  assumes "Reader_Read rd s p = ((nr, err, q), s')"
  shows "Reader_Read (logged rd) (s, L) p = ((nr, err, q), (s', L @ take (nat nr) q))
         \<and> 0 \<le> nr"
proof -
  obtain m bs e t where rd: "rd s (length p) = ((bs, e), t)"
    and m: "m = min (length p) (length bs)"
    and eq: "Reader_Read rd s p = ((int m, e, take m bs @ drop m p), t)"
    using Reader_Read_shape [of rd s p] by blast
  from assms eq have nr: "nr = int m" and err: "err = e"
    and q: "q = take m bs @ drop m p" and s': "s' = t"
    by simp_all
  have 1: "take (length p) bs = take m bs"
    by (simp add: m min_def)
  have "length (take m bs) = m"
    by (simp add: m)
  then have 2: "take (nat nr) q = take m bs"
    by (simp add: nr q)
  have "Reader_Read (logged rd) (s, L) p = ((int m, e, take m bs @ drop m p), (t, L @ take (length p) bs))"
    using rd m by (simp add: Reader_Read_def logged_def copy_def Let_def)
  then show ?thesis
    using 1 2 nr err q s' by simp
qed


lemma Read_logged_step:
  assumes "0 \<le> bvmReader_n b" and "bvmReader_n b \<le> 4" and "bvmReader_r b = (s, L)"
  shows "\<exists>res b' h. Read (logged rd) b p = Return (res, b')
           \<and> snd (bvmReader_r b') = L @ h
           \<and> bvmReader_n b \<le> bvmReader_n b' \<and> bvmReader_n b' \<le> 4
           \<and> (bvmReader_n b' < 4 \<longrightarrow> h = [])
           \<and> (\<not> (bvmReader_n b < 4 \<and> fst (snd res) \<noteq> None) \<longrightarrow>
                 returned res
                   = take (nat (bvmReader_n b' - bvmReader_n b)) (drop (nat (bvmReader_n b)) bvm) @ h)"
proof -
  consider (pass) "bvmReader_n b = 4"
    | (marker) "bvmReader_n b < 4" "int (length p) \<le> 4 - bvmReader_n b"
    | (span) "bvmReader_n b < 4" "4 - bvmReader_n b < int (length p)"
    using assms(2) by linarith
  then show ?thesis
  proof cases
    case pass
    obtain nr err q s' where rd: "Reader_Read rd s p = ((nr, err, q), s')"
      by (metis prod.exhaust)
    have "Reader_Read (logged rd) (s, L) p = ((nr, err, q), (s', L @ take (nat nr) q))"
      using Reader_Read_logged [OF rd] by simp
    then have "Read (logged rd) b p
        = Return ((nr, err, q), b\<lparr>bvmReader_r := (s', L @ take (nat nr) q)\<rparr>)"
      using pass assms(3) by (simp add: Read_pass passThrough_def)
    then show ?thesis
      using pass by (simp add: returned_def)
  next
    case marker
    have "Read (logged rd) b p =
           Return ((int (length p), None, take (length p) (drop (nat (bvmReader_n b)) bvm)),
                   b\<lparr>bvmReader_n := bvmReader_n b + int (length p)\<rparr>)"
      using assms(1) marker by (rule Read_marker_only)
    then show ?thesis
      using marker assms(3) by (simp add: returned_def)
  next
    case span
    let ?k = "nat (4 - bvmReader_n b)"
    obtain nr err q s' where rd: "Reader_Read rd s (drop ?k p) = ((nr, err, q), s')"
      by (metis prod.exhaust)
    from Reader_Read_logged [OF rd, of L]
    have lg: "Reader_Read (logged rd) (bvmReader_r b) (drop ?k p)
                = ((nr, err, q), (s', L @ take (nat nr) q))"
      and nr: "0 \<le> nr"
      using assms(3) by simp_all
    have rd': "Read (logged rd) b p =
           Return ((if err \<noteq> None then 0 else 4 - bvmReader_n b + nr, err,
                    drop (nat (bvmReader_n b)) bvm @ q),
                   \<lparr> bvmReader_r = (s', L @ take (nat nr) q), bvmReader_n = 4 \<rparr>)"
      using assms(1) span lg by (rule Read_spanning)
    have len: "length (drop (nat (bvmReader_n b)) bvm) = ?k"
      using assms(1) span(1) by (simp add: length_bvm)
    have "nat (4 - bvmReader_n b + nr) = ?k + nat nr"
      using span(1) nr by simp
    then have "take (nat (4 - bvmReader_n b + nr)) (drop (nat (bvmReader_n b)) bvm @ q)
          = drop (nat (bvmReader_n b)) bvm @ take (nat nr) q"
      using len by simp
    then show ?thesis
      using rd' span(1) len by (simp add: returned_def)
  qed
qed

lemma last_state_Cons: "last_state b ((res, b') # rs) = last_state b' rs"
  by (simp add: last_state_def)

lemma take_drop_join:
  assumes "n0 \<le> n1" and "n1 \<le> n2"
  shows "take (n1 - n0) (drop n0 xs) @ take (n2 - n1) (drop n1 xs) = take (n2 - n0) (drop n0 xs)"
proof -
  have "take ((n1 - n0) + (n2 - n1)) (drop n0 xs)
      = take (n1 - n0) (drop n0 xs) @ take (n2 - n1) (drop (n1 - n0) (drop n0 xs))"
    by (rule take_add)
  moreover have "(n1 - n0) + (n2 - n1) = n2 - n0" "n1 - n0 + n0 = n1"
    using assms by simp_all
  ultimately show ?thesis
    by simp
qed

lemma reads_logged:
  assumes "0 \<le> bvmReader_n b" and "bvmReader_n b \<le> 4" and "bvmReader_r b = (s, L)"
  shows "\<exists>rs h. reads (logged rd) b ps = Return rs
           \<and> snd (bvmReader_r (last_state b rs)) = L @ h
           \<and> bvmReader_n b \<le> bvmReader_n (last_state b rs)
           \<and> bvmReader_n (last_state b rs) \<le> 4
           \<and> (bvmReader_n (last_state b rs) < 4 \<longrightarrow> h = [])
           \<and> (\<not> boundary_error (bvmReader_n b) rs \<longrightarrow>
                 delivered rs
                   = take (nat (bvmReader_n (last_state b rs) - bvmReader_n b))
                       (drop (nat (bvmReader_n b)) bvm) @ h)"
  using assms
proof (induction ps arbitrary: b s L)
  case Nil
  then show ?case
    by (simp add: last_state_def delivered_def)
next
  case (Cons p ps)
  from Read_logged_step [OF Cons.prems, of rd p]
  obtain res b' h1 where step: "Read (logged rd) b p = Return (res, b')"
    and log1: "snd (bvmReader_r b') = L @ h1"
    and mono1: "bvmReader_n b \<le> bvmReader_n b'" and le1: "bvmReader_n b' \<le> 4"
    and low1: "bvmReader_n b' < 4 \<longrightarrow> h1 = []"
    and ret1: "\<not> (bvmReader_n b < 4 \<and> fst (snd res) \<noteq> None) \<longrightarrow>
                 returned res
                   = take (nat (bvmReader_n b' - bvmReader_n b)) (drop (nat (bvmReader_n b)) bvm) @ h1"
    by (elim exE conjE)
  have ge1: "0 \<le> bvmReader_n b'"
    using Cons.prems(1) mono1 by linarith
  have r1: "bvmReader_r b' = (fst (bvmReader_r b'), L @ h1)"
    using log1 by (cases "bvmReader_r b'") simp
  from Cons.IH [OF ge1 le1 r1]
  obtain rs h2 where run: "reads (logged rd) b' ps = Return rs"
    and log2: "snd (bvmReader_r (last_state b' rs)) = (L @ h1) @ h2"
    and mono2: "bvmReader_n b' \<le> bvmReader_n (last_state b' rs)"
    and le2: "bvmReader_n (last_state b' rs) \<le> 4"
    and low2: "bvmReader_n (last_state b' rs) < 4 \<longrightarrow> h2 = []"
    and ret2: "\<not> boundary_error (bvmReader_n b') rs \<longrightarrow>
                 delivered rs
                   = take (nat (bvmReader_n (last_state b' rs) - bvmReader_n b'))
                       (drop (nat (bvmReader_n b')) bvm) @ h2"
    by (elim exE conjE)
  let ?n0 = "bvmReader_n b" and ?n1 = "bvmReader_n b'" and ?n2 = "bvmReader_n (last_state b' rs)"
  have run': "reads (logged rd) b (p # ps) = Return ((res, b') # rs)"
    using step run by simp
  have last: "last_state b ((res, b') # rs) = last_state b' rs"
    by (rule last_state_Cons)
  have "delivered ((res, b') # rs) = take (nat (?n2 - ?n0)) (drop (nat ?n0) bvm) @ h1 @ h2"
    if ok: "\<not> boundary_error ?n0 ((res, b') # rs)"
  proof -
    have a: "returned res = take (nat (?n1 - ?n0)) (drop (nat ?n0) bvm) @ h1"
      and c: "delivered rs = take (nat (?n2 - ?n1)) (drop (nat ?n1) bvm) @ h2"
      using ok ret1 ret2 by simp_all
    show ?thesis
    proof (cases "?n1 < 4")
      case True
      then have "h1 = []"
        using low1 by simp
      moreover have "take (nat ?n1 - nat ?n0) (drop (nat ?n0) bvm)
                       @ take (nat ?n2 - nat ?n1) (drop (nat ?n1) bvm)
                     = take (nat ?n2 - nat ?n0) (drop (nat ?n0) bvm)"
        using Cons.prems(1) mono1 mono2 by (intro take_drop_join) simp_all
      moreover have "nat (?n1 - ?n0) = nat ?n1 - nat ?n0" "nat (?n2 - ?n1) = nat ?n2 - nat ?n1"
        "nat (?n2 - ?n0) = nat ?n2 - nat ?n0"
        using Cons.prems(1) ge1 mono1 mono2 by simp_all
      ultimately show ?thesis
        using a c by (simp add: delivered_def)
    next
      case False
      then have "?n1 = 4" "?n2 = 4"
        using le1 le2 mono2 by simp_all
      then show ?thesis
        using a c by (simp add: delivered_def)
    qed
  qed
  moreover have "?n2 < 4 \<longrightarrow> h1 @ h2 = []"
    using low1 low2 mono2 by auto
  moreover have "?n0 \<le> ?n2"
    using mono1 mono2 by linarith
  ultimately show ?case
    using run' last log2 le2
    by (intro exI [of _ "(res, b') # rs"] exI [of _ "h1 @ h2"]) simp
qed


lemma Read_logged_erase:
  assumes "Read (logged rd) b p = Return (res, b')"
  shows "Read rd (erase b) p = Return (res, erase b')"
proof -
  obtain s L where r: "bvmReader_r b = (s, L)"
    by (cases "bvmReader_r b")
  have n: "bvmReader_n (erase b) = bvmReader_n b" and er: "bvmReader_r (erase b) = s"
    using r by (simp_all add: erase_def)
  consider (neg) "bvmReader_n b < 0" | (pass) "4 \<le> bvmReader_n b"
    | (marker) "0 \<le> bvmReader_n b" "bvmReader_n b < 4" "int (length p) \<le> 4 - bvmReader_n b"
    | (span) "0 \<le> bvmReader_n b" "bvmReader_n b < 4" "4 - bvmReader_n b < int (length p)"
    by linarith
  then show ?thesis
  proof cases
    case neg
    then show ?thesis
      using assms by (simp add: Read_panic)
  next
    case pass
    obtain nr err q s' where rd: "Reader_Read rd s p = ((nr, err, q), s')"
      by (metis prod.exhaust)
    have "Reader_Read (logged rd) (s, L) p = ((nr, err, q), (s', L @ take (nat nr) q))"
      using Reader_Read_logged [OF rd] by simp
    then have "Read (logged rd) b p
        = Return ((nr, err, q), b\<lparr>bvmReader_r := (s', L @ take (nat nr) q)\<rparr>)"
      using pass r by (simp add: Read_pass passThrough_def)
    moreover have "Read rd (erase b) p = Return ((nr, err, q), (erase b)\<lparr>bvmReader_r := s'\<rparr>)"
      using pass rd n er by (simp add: Read_pass passThrough_def)
    ultimately show ?thesis
      using assms by (auto simp: erase_def)
  next
    case marker
    have "Read (logged rd) b p =
           Return ((int (length p), None, take (length p) (drop (nat (bvmReader_n b)) bvm)),
                   b\<lparr>bvmReader_n := bvmReader_n b + int (length p)\<rparr>)"
      using marker by (rule Read_marker_only)
    moreover have "Read rd (erase b) p =
           Return ((int (length p), None, take (length p) (drop (nat (bvmReader_n (erase b))) bvm)),
                   (erase b)\<lparr>bvmReader_n := bvmReader_n (erase b) + int (length p)\<rparr>)"
      using marker n by (intro Read_marker_only) simp_all
    ultimately show ?thesis
      using assms n by (auto simp: erase_def)
  next
    case span
    let ?k = "nat (4 - bvmReader_n b)"
    obtain nr err q s' where rd: "Reader_Read rd s (drop ?k p) = ((nr, err, q), s')"
      by (metis prod.exhaust)
    have lg: "Reader_Read (logged rd) (bvmReader_r b) (drop ?k p)
                = ((nr, err, q), (s', L @ take (nat nr) q))"
      using Reader_Read_logged [OF rd, of L] r by simp
    have "Read (logged rd) b p =
           Return ((if err \<noteq> None then 0 else 4 - bvmReader_n b + nr, err,
                    drop (nat (bvmReader_n b)) bvm @ q),
                   \<lparr> bvmReader_r = (s', L @ take (nat nr) q), bvmReader_n = 4 \<rparr>)"
      using span lg by (rule Read_spanning)
    moreover have "Read rd (erase b) p =
           Return ((if err \<noteq> None then 0 else 4 - bvmReader_n (erase b) + nr, err,
                    drop (nat (bvmReader_n (erase b))) bvm @ q),
                   \<lparr> bvmReader_r = s', bvmReader_n = 4 \<rparr>)"
      using span rd n er by (intro Read_spanning) simp_all
    ultimately show ?thesis
      using assms n by (auto simp: erase_def)
  qed
qed

lemma reads_logged_erase:
  assumes "reads (logged rd) b ps = Return rs"
  shows "reads rd (erase b) ps = Return (erase_run rs)"
  using assms
proof (induction ps arbitrary: b rs)
  case Nil
  then show ?case by (simp add: erase_run_def)
next
  case (Cons p ps)
  from Cons.prems obtain res b' rs' where step: "Read (logged rd) b p = Return (res, b')"
    and run: "reads (logged rd) b' ps = Return rs'" and rs: "rs = (res, b') # rs'"
    by (auto split: outcome.splits)
  have "Read rd (erase b) p = Return (res, erase b')"
    using step by (rule Read_logged_erase)
  moreover have "reads rd (erase b') ps = Return (erase_run rs')"
    using run by (rule Cons.IH)
  ultimately show ?case
    using rs by (simp add: erase_run_def)
qed


lemma delivered_erase_run: "delivered (erase_run rs) = delivered rs"
  by (induction rs) (auto simp: delivered_def erase_run_def)

text \<open>
  C2 (as the code has it), in two parts. First, for every wrapped source \<open>rd\<close> and every
  sequence of buffers \<open>ps\<close>: the run does not panic, and, provided that no call which began
  with fewer than 4 marker bytes emitted returned an error (the wrapped source returned no
  error during a call that spans the boundary), the bytes delivered are the marker bytes
  emitted so far followed by exactly the bytes that the wrapped source has handed out, in
  order, however the calls are chunked. The run of \<open>logged rd\<close> is the run of \<open>rd\<close> with the
  log added. Second, let the wrapped source have the content \<open>S\<close>, deliver it without
  failing in reads as short as it likes (\<open>limits\<close>), and report \<open>EOF\<close> by a read of its own
  once \<open>S\<close> is used up. Provided that \<open>S\<close> is not empty, or that no call spans the boundary
  between marker and source, the bytes delivered are at every moment a prefix of \<open>bvm @ S\<close>;
  they are all of \<open>bvm @ S\<close> as soon as one call has returned an error; and when the source
  makes no short reads they are the first \<open>sum_list (map length ps)\<close> bytes of \<open>bvm @ S\<close>,
  whatever the chunking.
\<close>

theorem bvmReader_chunking:
  "(\<exists>rs. reads (logged rd) (newBVMReader (s, [])) ps = Return rs
       \<and> reads rd (newBVMReader s) ps = Return (erase_run rs)
       \<and> (\<not> boundary_error 0 rs \<longrightarrow>
            delivered (erase_run rs)
              = take (nat (bvmReader_n (last_state (newBVMReader (s, [])) rs))) bvm
                @ snd (bvmReader_r (last_state (newBVMReader (s, [])) rs))))
   \<and> (S \<noteq> [] \<or> \<not> spans 0 ps \<longrightarrow>
       (\<exists>rs rest. reads contentRead (newBVMReader (S, limits)) ps = Return rs
           \<and> delivered rs @ rest = bvm @ S
           \<and> ((\<exists>(res, b) \<in> set rs. fst (snd res) \<noteq> None) \<longrightarrow> rest = [])
           \<and> (limits = [] \<longrightarrow> delivered rs = take (sum_list (map length ps)) (bvm @ S))))"
proof (intro conjI impI)
  let ?b = "newBVMReader (s, [] :: byte list)"
  have "0 \<le> bvmReader_n ?b" "bvmReader_n ?b \<le> 4" "bvmReader_r ?b = (s, [])"
    by (simp_all add: newBVMReader_def)
  from reads_logged [OF this, of rd ps]
  obtain rs h where run: "reads (logged rd) ?b ps = Return rs"
    and log: "snd (bvmReader_r (last_state ?b rs)) = [] @ h"
    and ret: "\<not> boundary_error (bvmReader_n ?b) rs \<longrightarrow>
                 delivered rs
                   = take (nat (bvmReader_n (last_state ?b rs) - bvmReader_n ?b))
                       (drop (nat (bvmReader_n ?b)) bvm) @ h"
    by (elim exE conjE)
  have "erase ?b = newBVMReader s"
    by (simp add: erase_def newBVMReader_def)
  then have "reads rd (newBVMReader s) ps = Return (erase_run rs)"
    using reads_logged_erase [OF run] by simp
  moreover have "\<not> boundary_error 0 rs \<longrightarrow>
            delivered (erase_run rs)
              = take (nat (bvmReader_n (last_state ?b rs))) bvm @ snd (bvmReader_r (last_state ?b rs))"
    using ret log by (simp add: newBVMReader_def delivered_erase_run)
  ultimately show "\<exists>rs. reads (logged rd) ?b ps = Return rs
       \<and> reads rd (newBVMReader s) ps = Return (erase_run rs)
       \<and> (\<not> boundary_error 0 rs \<longrightarrow>
            delivered (erase_run rs)
              = take (nat (bvmReader_n (last_state ?b rs))) bvm @ snd (bvmReader_r (last_state ?b rs)))"
    using run by blast
next
  assume "S \<noteq> [] \<or> \<not> spans 0 ps"
  let ?b = "newBVMReader (S, limits)"
  have "0 \<le> bvmReader_n ?b" "bvmReader_n ?b \<le> 4"
    and "fst (bvmReader_r ?b) \<noteq> [] \<or> \<not> spans (bvmReader_n ?b) ps"
    using \<open>S \<noteq> [] \<or> \<not> spans 0 ps\<close> by (simp_all add: newBVMReader_def)
  from reads_content [OF this]
  show "\<exists>rs rest. reads contentRead ?b ps = Return rs
           \<and> delivered rs @ rest = bvm @ S
           \<and> ((\<exists>(res, b) \<in> set rs. fst (snd res) \<noteq> None) \<longrightarrow> rest = [])
           \<and> (limits = [] \<longrightarrow> delivered rs = take (sum_list (map length ps)) (bvm @ S))"
    by (simp add: pending_def newBVMReader_def)
qed


theorem bvmReader_chunking_witness:
  "(\<exists>rs. reads brokenRead (newBVMReader 0) [[0, 0, 0, 0, 0], [0, 0]] = Return rs
      \<and> map (\<lambda>(res, b). fst (snd res)) rs = [None, Some (New ''connection reset'')]
      \<and> delivered rs = bvm @ [1])
   \<and> (\<exists>rs. reads contentRead (newBVMReader ([1, 2, 3], [1])) [[0, 0], [0, 0, 0, 0, 0], [0, 0, 0], [0]]
          = Return rs
      \<and> map (\<lambda>(res, b). fst res) rs = [2, 3, 2, 0]
      \<and> delivered rs = bvm @ [1, 2, 3])"
proof (rule conjI)
  let ?ps = "[[0, 0, 0, 0, 0], [0, 0]] :: byte list list"
  let ?b = "newBVMReader (0 :: nat, [] :: byte list)"
  from bvmReader_chunking [where rd = brokenRead and s = 0 and ps = ?ps, THEN conjunct1]
  obtain rs where run: "reads (logged brokenRead) ?b ?ps = Return rs"
    and real: "reads brokenRead (newBVMReader 0) ?ps = Return (erase_run rs)"
    and ret: "\<not> boundary_error 0 rs \<longrightarrow>
            delivered (erase_run rs)
              = take (nat (bvmReader_n (last_state ?b rs))) bvm @ snd (bvmReader_r (last_state ?b rs))"
    by (elim exE conjE)
  have "reads (logged brokenRead) ?b ?ps =
      Return [((5, None, [0xE0, 1, 0, 0xEA, 1]), \<lparr> bvmReader_r = (1, [1]), bvmReader_n = 4 \<rparr>),
              ((0, Some (New ''connection reset''), [0, 0]),
               \<lparr> bvmReader_r = (1, [1]), bvmReader_n = 4 \<rparr>)]"
    by (simp add: run_defs logged_def brokenRead_def)
  with run have rs: "rs =
      [((5, None, [0xE0, 1, 0, 0xEA, 1]), \<lparr> bvmReader_r = (1, [1]), bvmReader_n = 4 \<rparr>),
       ((0, Some (New ''connection reset''), [0, 0]),
        \<lparr> bvmReader_r = (1, [1]), bvmReader_n = 4 \<rparr>)]"
    by simp
  then have "\<not> boundary_error 0 rs"
    by simp
  then have "delivered (erase_run rs) = take 4 bvm @ [1]"
    using ret rs by (simp add: last_state_def)
  then have "delivered (erase_run rs) = bvm @ [1]"
    by (simp add: length_bvm)
  moreover have "map (\<lambda>(res, b). fst (snd res)) (erase_run rs) = [None, Some (New ''connection reset'')]"
    using rs by (simp add: erase_run_def)
  ultimately show "\<exists>rs. reads brokenRead (newBVMReader 0) ?ps = Return rs
      \<and> map (\<lambda>(res, b). fst (snd res)) rs = [None, Some (New ''connection reset'')]
      \<and> delivered rs = bvm @ [1]"
    using real by (intro exI [of _ "erase_run rs"]) simp
next
  let ?ps = "[[0, 0], [0, 0, 0, 0, 0], [0, 0, 0], [0]] :: byte list list"
  have "[1, 2, 3] \<noteq> ([] :: byte list) \<or> \<not> spans 0 ?ps"
    by simp
  from bvmReader_chunking [where S = "[1, 2, 3]" and ps = ?ps and limits = "[1]",
      THEN conjunct2, rule_format, OF this]
  obtain rs rest where run: "reads contentRead (newBVMReader ([1, 2, 3], [1])) ?ps = Return rs"
    and rest: "delivered rs @ rest = bvm @ [1, 2, 3]"
    and fin: "(\<exists>(res, b) \<in> set rs. fst (snd res) \<noteq> None) \<longrightarrow> rest = []"
    by (elim exE conjE)
  have "reads contentRead (newBVMReader ([1, 2, 3], [1])) ?ps =
      Return [((2, None, [0xE0, 1]), \<lparr> bvmReader_r = ([1, 2, 3], [1]), bvmReader_n = 2 \<rparr>),
              ((3, None, [0, 0xEA, 1, 0, 0]), \<lparr> bvmReader_r = ([2, 3], []), bvmReader_n = 4 \<rparr>),
              ((2, None, [2, 3, 0]), \<lparr> bvmReader_r = ([], []), bvmReader_n = 4 \<rparr>),
              ((0, Some EOF, [0]), \<lparr> bvmReader_r = ([], []), bvmReader_n = 4 \<rparr>)]"
    by (simp add: run_defs)
  with run have rs: "rs =
      [((2, None, [0xE0, 1]), \<lparr> bvmReader_r = ([1, 2, 3], [1]), bvmReader_n = 2 \<rparr>),
       ((3, None, [0, 0xEA, 1, 0, 0]), \<lparr> bvmReader_r = ([2, 3], []), bvmReader_n = 4 \<rparr>),
       ((2, None, [2, 3, 0]), \<lparr> bvmReader_r = ([], []), bvmReader_n = 4 \<rparr>),
       ((0, Some EOF, [0]), \<lparr> bvmReader_r = ([], []), bvmReader_n = 4 \<rparr>)]"
    by simp
  then have "rest = []"
    using fin by simp
  with rest have "delivered rs = bvm @ [1, 2, 3]"
    by simp
  with run rs show "\<exists>rs. reads contentRead (newBVMReader ([1, 2, 3], [1])) ?ps = Return rs
      \<and> map (\<lambda>(res, b). fst res) rs = [2, 3, 2, 0]
      \<and> delivered rs = bvm @ [1, 2, 3]"
    by simp
qed


text \<open>
  C2 (as stated) fails for the empty content: the first call, with a buffer of 5 bytes,
  stages the marker, meets \<open>EOF\<close> in the wrapped source and returns \<open>(0, EOF)\<close>; the count is
  4 by then, so that later calls pass \<open>EOF\<close> through. No byte is ever delivered, and the
  marker is lost.
\<close>

theorem bvmReader_empty_source_counterexample:
  "reads contentRead (newBVMReader ([], [])) [[0, 0, 0, 0, 0], [0, 0, 0, 0, 0]]
     = Return [((0, Some EOF, [0xE0, 0x01, 0x00, 0xEA, 0]),
                  \<lparr> bvmReader_r = ([], []), bvmReader_n = 4 \<rparr>),
               ((0, Some EOF, [0, 0, 0, 0, 0]),
                  \<lparr> bvmReader_r = ([], []), bvmReader_n = 4 \<rparr>)]
   \<and> delivered [((0, Some EOF, [0xE0, 0x01, 0x00, 0xEA, 0]),
                  \<lparr> bvmReader_r = ([], [] :: nat list), bvmReader_n = 4 \<rparr>),
                 ((0, Some EOF, [0, 0, 0, 0, 0]),
                  \<lparr> bvmReader_r = ([], []), bvmReader_n = 4 \<rparr>)] = []
   \<and> bvm @ [] \<noteq> []"
  by (simp add: run_defs delivered_def returned_def)


section \<open>Properties of extract\<close>

declare extract_loop.simps [simp del]

lemma Next_Nil:
  "reader_values r = [] \<Longrightarrow> Next r = (False, r\<lparr>reader_current := None, reader_err := reader_end r\<rparr>)"
  by (simp add: Next_def)

lemma Next_Cons:
  "reader_values r = v # vs \<Longrightarrow> Next r = (True, r\<lparr>reader_values := vs, reader_current := Some v\<rparr>)"
  by (simp add: Next_def)

lemma extract_loop_end:
  assumes "reader_values r = []"
  shows "extract_loop wr r out acc
           = (None, r\<lparr>reader_current := None, reader_err := reader_end r\<rparr>, out, acc)"
  using assms by (subst extract_loop.simps) (simp add: Next_Nil)

lemma extract_loop_non_blob:
  assumes "reader_values r = v # vs" and "value_Type v \<noteq> BlobType"
  shows "extract_loop wr r out acc
           = (Some (New ''unexpected token type''),
              r\<lparr>reader_values := vs, reader_current := Some v\<rparr>, out, acc)"
  using assms by (subst extract_loop.simps) (simp add: Next_Cons Type_def)

lemma extract_loop_ByteValue_error:
  assumes "reader_values r = v # vs" and "value_Type v = BlobType"
    and "value_ByteValue v = (val, Some err)"
  shows "extract_loop wr r out acc
           = (Some err, r\<lparr>reader_values := vs, reader_current := Some v\<rparr>, out, acc)"
  using assms by (subst extract_loop.simps) (simp add: Next_Cons Type_def ByteValue_def)

lemma extract_loop_Write_error:
  assumes "reader_values r = v # vs" and "value_Type v = BlobType"
    and "value_ByteValue v = (val, None)" and "wr out val = ((n, Some err), out')"
  shows "extract_loop wr r out acc
           = (Some err, r\<lparr>reader_values := vs, reader_current := Some v\<rparr>, out', acc @ [val])"
  using assms by (subst extract_loop.simps) (simp add: Next_Cons Type_def ByteValue_def)

lemma extract_loop_Write:
  assumes "reader_values r = v # vs" and "value_Type v = BlobType"
    and "value_ByteValue v = (val, None)" and "wr out val = ((n, None), out')"
  shows "extract_loop wr r out acc
           = extract_loop wr (r\<lparr>reader_values := vs, reader_current := Some v\<rparr>) out' (acc @ [val])"
  using assms by (subst extract_loop.simps) (simp add: Next_Cons Type_def ByteValue_def)


lemma extract_loop_blobs:
  assumes "reader_values r = map blob bs" and "write_all wr out bs = Some out'"
  shows "\<exists>r'. extract_loop wr r out acc = (None, r', out', acc @ bs)
           \<and> reader_values r' = [] \<and> reader_err r' = reader_end r"
  using assms
proof (induction bs arbitrary: r out acc)
  case Nil
  then show ?case by (simp add: extract_loop_end)
next
  case (Cons b bs)
  from Cons.prems(2) obtain n out1 where w: "wr out b = ((n, None), out1)"
    and rest: "write_all wr out1 bs = Some out'"
    by (auto split: prod.splits option.splits)
  let ?r = "r\<lparr>reader_values := map blob bs, reader_current := Some (blob b)\<rparr>"
  have "extract_loop wr r out acc = extract_loop wr ?r out1 (acc @ [b])"
    using Cons.prems(1) w by (intro extract_loop_Write) (simp_all add: blob_def)
  moreover have "\<exists>r'. extract_loop wr ?r out1 (acc @ [b]) = (None, r', out', (acc @ [b]) @ bs)
           \<and> reader_values r' = [] \<and> reader_err r' = reader_end ?r"
    using rest by (intro Cons.IH) simp_all
  ultimately show ?case by simp
qed

lemma write_all_bufferWrite: "write_all bufferWrite buf bs = Some (buf @ concat bs)"
  by (induction bs arbitrary: buf) (simp_all add: bufferWrite_def)

lemma extract_loop_stops:
  assumes "reader_values r = pre @ v # post"
    and "\<forall>u \<in> set pre. value_Type u = BlobType"
    and "value_Type v \<noteq> BlobType"
  shows "\<exists>err r' out' k. extract_loop wr r out acc
             = (Some err, r', out', acc @ map (\<lambda>u. fst (value_ByteValue u)) (take k pre))
           \<and> k \<le> length pre
           \<and> ((\<forall>u \<in> set pre. snd (value_ByteValue u) = None)
                \<and> write_all wr out (map (\<lambda>u. fst (value_ByteValue u)) pre) \<noteq> None \<longrightarrow>
                 err = New ''unexpected token type'' \<and> k = length pre
                 \<and> write_all wr out (map (\<lambda>u. fst (value_ByteValue u)) pre) = Some out'
                 \<and> reader_values r' = post)"
  using assms
proof (induction pre arbitrary: r out acc)
  case Nil
  then show ?case
    by (simp add: extract_loop_non_blob)
next
  case (Cons u pre)
  obtain val eo where bv: "value_ByteValue u = (val, eo)"
    by (cases "value_ByteValue u")
  obtain n wo out1 where w: "wr out val = ((n, wo), out1)"
    by (metis prod.exhaust)
  have vs: "reader_values r = u # (pre @ v # post)" and blob: "value_Type u = BlobType"
    using Cons.prems by simp_all
  let ?r = "r\<lparr>reader_values := pre @ v # post, reader_current := Some u\<rparr>"
  show ?case
  proof (cases eo)
    case (Some err)
    then have "extract_loop wr r out acc = (Some err, ?r, out, acc)"
      using vs blob bv by (intro extract_loop_ByteValue_error) simp_all
    then have "extract_loop wr r out acc
        = (Some err, ?r, out, acc @ map (\<lambda>u. fst (value_ByteValue u)) (take 0 (u # pre)))"
      by simp
    moreover have "\<not> (\<forall>u' \<in> set (u # pre). snd (value_ByteValue u') = None)"
      using bv Some by simp
    ultimately show ?thesis by blast
  next
    case None
    show ?thesis
    proof (cases wo)
      case (Some err)
      then have "extract_loop wr r out acc = (Some err, ?r, out1, acc @ [val])"
        using vs blob bv None w by (intro extract_loop_Write_error) simp_all
      then have "extract_loop wr r out acc
          = (Some err, ?r, out1, acc @ map (\<lambda>u. fst (value_ByteValue u)) (take 1 (u # pre)))"
        using bv by simp
      moreover have "write_all wr out (map (\<lambda>u. fst (value_ByteValue u)) (u # pre)) = None"
        using bv w Some by simp
      moreover have "(1 :: nat) \<le> length (u # pre)"
        by simp
      ultimately show ?thesis by blast
    next
      case wok: None
      have step: "extract_loop wr r out acc = extract_loop wr ?r out1 (acc @ [val])"
        using vs blob bv None w wok by (intro extract_loop_Write) simp_all
      have "reader_values ?r = pre @ v # post" "\<forall>u \<in> set pre. value_Type u = BlobType"
        using Cons.prems(2) by simp_all
      from Cons.IH [OF this Cons.prems(3), of out1 "acc @ [val]"]
      obtain err r' out' k where run: "extract_loop wr ?r out1 (acc @ [val])
             = (Some err, r', out', (acc @ [val]) @ map (\<lambda>u. fst (value_ByteValue u)) (take k pre))"
        and k: "k \<le> length pre"
        and ok: "(\<forall>u \<in> set pre. snd (value_ByteValue u) = None)
                \<and> write_all wr out1 (map (\<lambda>u. fst (value_ByteValue u)) pre) \<noteq> None \<longrightarrow>
                 err = New ''unexpected token type'' \<and> k = length pre
                 \<and> write_all wr out1 (map (\<lambda>u. fst (value_ByteValue u)) pre) = Some out'
                 \<and> reader_values r' = post"
        by (elim exE conjE)
      have "extract_loop wr r out acc
          = (Some err, r', out', acc @ map (\<lambda>u. fst (value_ByteValue u)) (take (Suc k) (u # pre)))"
        using step run bv by simp
      moreover have "Suc k \<le> length (u # pre)"
        using k by simp
      moreover have "write_all wr out (map (\<lambda>u. fst (value_ByteValue u)) (u # pre))
          = write_all wr out1 (map (\<lambda>u. fst (value_ByteValue u)) pre)"
        using bv w wok by simp
      ultimately show ?thesis
        using ok by (intro exI [of _ err] exI [of _ r'] exI [of _ out'] exI [of _ "Suc k"]) simp
    qed
  qed
qed


text \<open>
  With the writer of a \<^verbatim>\<open>bytes.Buffer\<close>, which accepts every write, the buffer receives
  the concatenation of the contents.
\<close>

lemma extract_bufferWrite:
  "\<exists>r'. extract' bufferWrite (NewReader (map blob bs) e) buf = (None, r', buf @ concat bs, bs)"
proof -
  have "reader_values (NewReader (map blob bs) e) = map blob bs"
    by (simp add: NewReader_def)
  from extract_loop_blobs [where wr = bufferWrite and out = buf and acc = "[]", OF this write_all_bufferWrite]
  show ?thesis
    by (auto simp: extract'_def)
qed

text \<open>
  C5 (as the code has it). For every envelope of \<open>N\<close> top-level blob records with the
  contents \<open>b1 .. bN\<close>, however its iteration ends, and every output that accepts the
  writes \<open>b1 .. bN\<close> one after the other: \<open>extract\<close> calls \<^verbatim>\<open>out.Write\<close> exactly once for
  each record, in record order, with the content of the record and nothing else, leaves
  the output in the state these writes produce, and returns nil.
\<close>

theorem extract_blobs:
  assumes "write_all wr out bs = Some out'"
  shows "\<exists>r'. extract' wr (NewReader (map blob bs) e) out = (None, r', out', bs) \<and> Err r' = e"
proof -
  have "reader_values (NewReader (map blob bs) e) = map blob bs"
    by (simp add: NewReader_def)
  from extract_loop_blobs [OF this assms, of "[]"]
  show ?thesis
    by (auto simp: extract'_def Err_def NewReader_def)
qed

theorem extract_blobs_witness:
  "\<exists>r'. extract' bufferWrite (NewReader (map blob [[1, 2], [], [3]]) None) []
          = (None, r', [1, 2, 3], [[1, 2], [], [3]]) \<and> Err r' = None"
proof -
  have "write_all bufferWrite [] [[1, 2], [], [3]] = Some [1, 2, 3]"
    by (simp add: bufferWrite_def)
  then show ?thesis
    by (rule extract_blobs)
qed

text \<open>
  C5 (as stated) fails when the output rejects a write: on an envelope of one blob record
  and an output that answers every write with an error (a pipe whose reading end is
  closed), \<open>extract\<close> returns that error, not nil.
\<close>

theorem extract_failing_writer_counterexample:
  "extract' (\<lambda>out p. ((0, Some (New ''io: read/write on closed pipe'')), out))
      (NewReader (map blob [[1, 2]]) None) ()
     = (Some (New ''io: read/write on closed pipe''),
        \<lparr> reader_values = [], reader_end = None, reader_current = Some (blob [1, 2]),
          reader_err = None \<rparr>, (), [[1, 2]])"
  by (simp add: extract'_def extract_loop.simps Next_def Type_def ByteValue_def NewReader_def blob_def)

text \<open>
  C6. Let the envelope have a top-level record \<open>v\<close> that is not a blob, after the blob
  records \<open>pre\<close> and before the records \<open>post\<close>. Then \<open>extract\<close> returns an error, whatever
  the output does, and every call of \<^verbatim>\<open>out.Write\<close> it made was for one of the records of
  \<open>pre\<close>, in order: nothing is written for \<open>v\<close> or for a record of \<open>post\<close>. If moreover the
  contents of \<open>pre\<close> can be read and the output accepts them, the error is
  \<^verbatim>\<open>unexpected token type\<close>, raised at \<open>v\<close>: all of \<open>pre\<close> has been written and the records
  \<open>post\<close> have not been read.
\<close>

theorem extract_non_blob:
  assumes "\<forall>u \<in> set pre. value_Type u = BlobType" and "value_Type v \<noteq> BlobType"
  shows "\<exists>err r' out' k. extract' wr (NewReader (pre @ v # post) e) out
             = (Some err, r', out', map (\<lambda>u. fst (value_ByteValue u)) (take k pre))
           \<and> k \<le> length pre
           \<and> ((\<forall>u \<in> set pre. snd (value_ByteValue u) = None)
                \<and> write_all wr out (map (\<lambda>u. fst (value_ByteValue u)) pre) \<noteq> None \<longrightarrow>
                 err = New ''unexpected token type'' \<and> k = length pre
                 \<and> write_all wr out (map (\<lambda>u. fst (value_ByteValue u)) pre) = Some out'
                 \<and> reader_values r' = post)"
proof -
  have "reader_values (NewReader (pre @ v # post) e) = pre @ v # post"
    by (simp add: NewReader_def)
  from extract_loop_stops [OF this assms, of wr out "[]"]
  show ?thesis
    by (simp add: extract'_def)
qed

theorem extract_non_blob_witness:
  "extract' bufferWrite
      (NewReader ([blob [1, 2]] @ \<lparr> value_Type = StringType, value_ByteValue = ([], None) \<rparr> # [blob [3]])
         None) []
     = (Some (New ''unexpected token type''),
        \<lparr> reader_values = [blob [3]], reader_end = None,
          reader_current = Some \<lparr> value_Type = StringType, value_ByteValue = ([], None) \<rparr>,
          reader_err = None \<rparr>,
        [1, 2], [[1, 2]])"
proof -
  let ?v = "\<lparr> value_Type = StringType, value_ByteValue = ([] :: byte list, None :: error option) \<rparr>"
  have 1: "\<forall>u \<in> set [blob [1, 2]]. value_Type u = BlobType"
    by (simp add: blob_def)
  have 2: "value_Type ?v \<noteq> BlobType"
    by simp
  from extract_non_blob [OF 1 2, of bufferWrite "[blob [3]]" None "[]"]
  obtain err r' out' k where "extract' bufferWrite (NewReader ([blob [1, 2]] @ ?v # [blob [3]]) None) []
             = (Some err, r', out', map (\<lambda>u. fst (value_ByteValue u)) (take k [blob [1, 2]]))"
    by (elim exE conjE)
  moreover have "extract' bufferWrite (NewReader ([blob [1, 2]] @ ?v # [blob [3]]) None) []
     = (Some (New ''unexpected token type''),
        \<lparr> reader_values = [blob [3]], reader_end = None, reader_current = Some ?v,
          reader_err = None \<rparr>,
        [1, 2], [[1, 2]])"
    by (simp add: extract'_def extract_loop.simps Next_def Type_def ByteValue_def NewReader_def
        blob_def bufferWrite_def)
  ultimately show ?thesis by simp
qed

text \<open>
  C3. The claim does not hold of the code: the loop \<^verbatim>\<open>for r.Next()\<close> ends when \<^verbatim>\<open>Next\<close>
  answers \<^verbatim>\<open>false\<close>, and \<open>extract\<close> then returns nil without asking \<^verbatim>\<open>r.Err()\<close>. On an
  envelope of one blob record whose iteration ends with an error, \<open>extract\<close> returns nil
  although \<open>Err\<close> reports the error.
\<close>

theorem extract_swallows_reader_error:
  "extract' bufferWrite (NewReader [blob [1, 2]] (Some (New ''unexpected EOF''))) []
     = (None,
        \<lparr> reader_values = [], reader_end = Some (New ''unexpected EOF''), reader_current = None,
          reader_err = Some (New ''unexpected EOF'') \<rparr>,
        [1, 2], [[1, 2]])
   \<and> Err \<lparr> reader_values = [], reader_end = Some (New ''unexpected EOF''), reader_current = None,
          reader_err = Some (New ''unexpected EOF'') \<rparr> = Some (New ''unexpected EOF'')"
  by (simp add: extract'_def extract_loop.simps Next_def Type_def ByteValue_def NewReader_def
      blob_def bufferWrite_def Err_def)


section \<open>Properties of dump\<close>

declare dump_loop.simps [simp del]

lemma dump_loop_no_input:
  assumes "decoder_values dec = []" and "decoder_end dec = ErrNoInput"
  shows "dump_loop enc dec e calls
           = (fst (Finish enc e), dec, snd (Finish enc e), calls @ [Finish_call])"
  using assms
  by (subst dump_loop.simps) (simp add: Decode_def split: prod.splits option.splits)

lemma dump_loop_decode_error:
  assumes "decoder_values dec = []" and "decoder_end dec \<noteq> ErrNoInput"
  shows "dump_loop enc dec e calls = (Some (decoder_end dec), dec, e, calls)"
  using assms by (subst dump_loop.simps) (simp add: Decode_def)

lemma dump_loop_Encode:
  assumes "decoder_values dec = v # vs" and "Encode enc e (Some v) = (None, e')"
  shows "dump_loop enc dec e calls
           = dump_loop enc (dec\<lparr>decoder_values := vs\<rparr>) e' (calls @ [Encode_call (Some v)])"
  using assms by (subst dump_loop.simps) (simp add: Decode_def)

lemma dump_loop_Encode_error:
  assumes "decoder_values dec = v # vs" and "Encode enc e (Some v) = (Some err, e')"
  shows "dump_loop enc dec e calls
           = (Some err, dec\<lparr>decoder_values := vs\<rparr>, e', calls @ [Encode_call (Some v)])"
  using assms by (subst dump_loop.simps) (simp add: Decode_def)

lemma dump_loop_encoded:
  assumes "decoder_values dec = vs" and "encode_all enc e vs = Some e1"
  shows "dump_loop enc dec e calls =
           (if decoder_end dec = ErrNoInput
            then (fst (Finish enc e1), dec\<lparr>decoder_values := []\<rparr>, snd (Finish enc e1),
                  calls @ map (\<lambda>v. Encode_call (Some v)) vs @ [Finish_call])
            else (Some (decoder_end dec), dec\<lparr>decoder_values := []\<rparr>, e1,
                  calls @ map (\<lambda>v. Encode_call (Some v)) vs))"
  using assms
proof (induction vs arbitrary: dec e calls)
  case Nil
  then have "dec\<lparr>decoder_values := []\<rparr> = dec"
    by simp
  then show ?case
    using Nil by (simp add: dump_loop_no_input dump_loop_decode_error)
next
  case (Cons v vs)
  from Cons.prems(2) obtain e' where enc: "Encode enc e (Some v) = (None, e')"
    and rest: "encode_all enc e' vs = Some e1"
    by (auto split: prod.splits option.splits)
  let ?dec = "dec\<lparr>decoder_values := vs\<rparr>"
  have "dump_loop enc dec e calls = dump_loop enc ?dec e' (calls @ [Encode_call (Some v)])"
    using Cons.prems(1) enc by (rule dump_loop_Encode)
  moreover have "decoder_values ?dec = vs"
    by simp
  ultimately show ?case
    using Cons.IH [OF _ rest, of ?dec "calls @ [Encode_call (Some v)]"] by simp
qed

lemma dump_loop_success:
  assumes "decoder_values dec = vs" and "fst (dump_loop enc dec e calls) = None"
  shows "decoder_end dec = ErrNoInput
         \<and> snd (snd (snd (dump_loop enc dec e calls)))
             = calls @ map (\<lambda>v. Encode_call (Some v)) vs @ [Finish_call]"
  using assms
proof (induction vs arbitrary: dec e calls)
  case Nil
  show ?case
  proof (cases "decoder_end dec = ErrNoInput")
    case True
    then show ?thesis
      using Nil by (simp add: dump_loop_no_input)
  next
    case False
    then show ?thesis
      using Nil by (simp add: dump_loop_decode_error)
  qed
next
  case (Cons v vs)
  obtain eo e' where enc: "Encode enc e (Some v) = (eo, e')"
    by (cases "Encode enc e (Some v)")
  show ?case
  proof (cases eo)
    case (Some err)
    then have "fst (dump_loop enc dec e calls) = Some err"
      using Cons.prems(1) enc by (simp add: dump_loop_Encode_error)
    then show ?thesis
      using Cons.prems(2) by simp
  next
    case None
    let ?dec = "dec\<lparr>decoder_values := vs\<rparr>"
    have step: "dump_loop enc dec e calls = dump_loop enc ?dec e' (calls @ [Encode_call (Some v)])"
      using Cons.prems(1) enc None by (intro dump_loop_Encode) simp_all
    then have "fst (dump_loop enc ?dec e' (calls @ [Encode_call (Some v)])) = None"
      using Cons.prems(2) by simp
    from Cons.IH [OF _ this] step show ?thesis
      by simp
  qed
qed

text \<open>
  C8 (as the code has it). Let every \<^verbatim>\<open>Encode\<close> succeed. When the decoder reports
  \<open>ErrNoInput\<close>, \<open>dump\<close> calls \<^verbatim>\<open>Finish\<close> exactly once, after the last value has been
  encoded, and returns what \<^verbatim>\<open>Finish\<close> returns: nil when \<^verbatim>\<open>Finish\<close> succeeds. When the
  decoder reports any other error, \<open>dump\<close> returns that error and does not call
  \<^verbatim>\<open>Finish\<close>. And whenever \<open>dump\<close> returns nil, the decoder has reported \<open>ErrNoInput\<close> and
  the calls to the encoder were one \<^verbatim>\<open>Encode\<close> for each value, in order, followed by one
  \<^verbatim>\<open>Finish\<close>.
\<close>

theorem dump_finalizes:
  "(encode_all enc e (decoder_values dec) = Some e1 \<and> decoder_end dec = ErrNoInput \<longrightarrow>
      dump enc dec e
        = (fst (Finish enc e1), dec\<lparr>decoder_values := []\<rparr>, snd (Finish enc e1),
           map (\<lambda>v. Encode_call (Some v)) (decoder_values dec) @ [Finish_call]))
   \<and> (encode_all enc e (decoder_values dec) = Some e1 \<and> decoder_end dec \<noteq> ErrNoInput \<longrightarrow>
      dump enc dec e
        = (Some (decoder_end dec), dec\<lparr>decoder_values := []\<rparr>, e1,
           map (\<lambda>v. Encode_call (Some v)) (decoder_values dec)))
   \<and> (fst (dump enc dec e) = None \<longrightarrow>
      decoder_end dec = ErrNoInput
      \<and> snd (snd (snd (dump enc dec e)))
          = map (\<lambda>v. Encode_call (Some v)) (decoder_values dec) @ [Finish_call])"
proof (intro conjI impI)
  assume "encode_all enc e (decoder_values dec) = Some e1 \<and> decoder_end dec = ErrNoInput"
  then have enc: "encode_all enc e (decoder_values dec) = Some e1"
    and fin: "decoder_end dec = ErrNoInput"
    by simp_all
  show "dump enc dec e
        = (fst (Finish enc e1), dec\<lparr>decoder_values := []\<rparr>, snd (Finish enc e1),
           map (\<lambda>v. Encode_call (Some v)) (decoder_values dec) @ [Finish_call])"
    unfolding dump_def dump_loop_encoded [OF refl enc] using fin by simp
next
  assume "encode_all enc e (decoder_values dec) = Some e1 \<and> decoder_end dec \<noteq> ErrNoInput"
  then have enc: "encode_all enc e (decoder_values dec) = Some e1"
    and fin: "decoder_end dec \<noteq> ErrNoInput"
    by simp_all
  show "dump enc dec e
        = (Some (decoder_end dec), dec\<lparr>decoder_values := []\<rparr>, e1,
           map (\<lambda>v. Encode_call (Some v)) (decoder_values dec))"
    unfolding dump_def dump_loop_encoded [OF refl enc] using fin by simp
next
  assume ok: "fst (dump enc dec e) = None"
  then have "fst (dump_loop enc dec e []) = None"
    by (simp add: dump_def)
  from dump_loop_success [OF refl this]
  show "decoder_end dec = ErrNoInput"
    and "snd (snd (snd (dump enc dec e)))
          = map (\<lambda>v. Encode_call (Some v)) (decoder_values dec) @ [Finish_call]"
    by (simp_all add: dump_def)
qed


theorem dump_finalizes_witness:
  "dump \<lparr> Encode = (\<lambda>e v. (None, e @ [v])), Finish = (\<lambda>e. (None, e)) \<rparr>
        \<lparr> decoder_values = [1 :: nat, 2], decoder_end = ErrNoInput \<rparr> []
     = (None, \<lparr> decoder_values = [], decoder_end = ErrNoInput \<rparr>, [Some 1, Some 2],
        [Encode_call (Some 1), Encode_call (Some 2), Finish_call])
   \<and> dump \<lparr> Encode = (\<lambda>e v. (None, e @ [v])), Finish = (\<lambda>e. (None, e)) \<rparr>
        \<lparr> decoder_values = [1 :: nat, 2], decoder_end = New ''bad value'' \<rparr> []
     = (Some (New ''bad value''), \<lparr> decoder_values = [], decoder_end = New ''bad value'' \<rparr>,
        [Some 1, Some 2], [Encode_call (Some 1), Encode_call (Some 2)])"
proof -
  let ?enc = "\<lparr> Encode = (\<lambda>(e :: nat option list) v. (None :: error option, e @ [v])),
               Finish = (\<lambda>e. (None :: error option, e)) \<rparr>"
  let ?d1 = "\<lparr> decoder_values = [1 :: nat, 2], decoder_end = ErrNoInput \<rparr>"
  let ?d2 = "\<lparr> decoder_values = [1 :: nat, 2], decoder_end = New ''bad value'' \<rparr>"
  have 1: "encode_all ?enc [] (decoder_values ?d1) = Some [Some 1, Some 2]
             \<and> decoder_end ?d1 = ErrNoInput"
    by simp
  have 2: "encode_all ?enc [] (decoder_values ?d2) = Some [Some 1, Some 2]
             \<and> decoder_end ?d2 \<noteq> ErrNoInput"
    by simp
  have "dump ?enc ?d1 []
      = (fst (Finish ?enc [Some 1, Some 2]), ?d1\<lparr>decoder_values := []\<rparr>,
         snd (Finish ?enc [Some 1, Some 2]),
         map (\<lambda>v. Encode_call (Some v)) (decoder_values ?d1) @ [Finish_call])"
    using dump_finalizes [of ?enc "[]" ?d1 "[Some 1, Some 2]", THEN conjunct1] 1
    by (rule mp)
  moreover have "dump ?enc ?d2 []
      = (Some (decoder_end ?d2), ?d2\<lparr>decoder_values := []\<rparr>, [Some 1, Some 2],
         map (\<lambda>v. Encode_call (Some v)) (decoder_values ?d2))"
    using dump_finalizes [of ?enc "[]" ?d2 "[Some 1, Some 2]", THEN conjunct2, THEN conjunct1] 2
    by (rule mp)
  ultimately show ?thesis
    by simp
qed

text \<open>
  C8 (as stated) fails when \<^verbatim>\<open>Finish\<close> fails after a value has been encoded. The encoder
  here accepts every \<^verbatim>\<open>Encode\<close> and has then something left to write in \<^verbatim>\<open>Finish\<close>, which
  fails; with nothing encoded its \<^verbatim>\<open>Finish\<close> succeeds. The decoder delivers one value and
  reports \<open>ErrNoInput\<close>: \<open>dump\<close> encodes the value, calls \<^verbatim>\<open>Finish\<close>, and returns the error
  of \<^verbatim>\<open>Finish\<close>, not nil.
\<close>

theorem dump_failing_Finish_counterexample:
  "dump \<lparr> Encode = (\<lambda>e v. (None, Suc e)),
          Finish = (\<lambda>e. if e = 0 then (None, e) else (Some (New ''short write''), e)) \<rparr>
        \<lparr> decoder_values = [7 :: nat], decoder_end = ErrNoInput \<rparr> 0
     = (Some (New ''short write''), \<lparr> decoder_values = [], decoder_end = ErrNoInput \<rparr>, Suc 0,
        [Encode_call (Some 7), Finish_call])"
  by (simp add: dump_def dump_loop.simps Decode_def)

end
